theory Spec2Isabelle
  imports Complex_Main "HOL-Library.Word" "HOL-Library.Multiset"
begin

section \<open>Numbers, points and arrays\<close>

text \<open>
  The scanner (\<^verbatim>\<open>src/lib/imageProcessing.ts\<close>) computes with JavaScript numbers.
  They are embedded as \<^typ>\<open>real\<close>: every arithmetic operation is exact, so the
  rounding of IEEE doubles is not part of this model.  Array indices and image
  dimensions are \<^typ>\<open>nat\<close>, the elements of a \<^verbatim>\<open>Uint8ClampedArray\<close> are
  \<^typ>\<open>8 word\<close>.  A \<^verbatim>\<open>Point\<close> is the record below; its fields are called
  \<open>px\<close> and \<open>py\<close> (the source's \<^verbatim>\<open>x\<close> and \<^verbatim>\<open>y\<close>).
\<close>

record point =
  px :: real
  py :: real

type_synonym uint8 = "8 word"

text \<open>
  The ways in which a call can fail to return a value: the two exceptions the
  code of the file can raise by itself, the exception of the canvas when it is
  asked for pixel data of width or height 0, and a loop that never ends.
\<close>

datatype failure =
    RangeError      \<comment> \<open>maximum call stack size exceeded\<close>
  | TypeError       \<comment> \<open>a property of \<^verbatim>\<open>undefined\<close> is read\<close>
  | IndexSizeError  \<comment> \<open>\<^verbatim>\<open>getImageData\<close> or \<^verbatim>\<open>createImageData\<close> with a width or height of 0\<close>
  | NoReturn        \<comment> \<open>the loop does not end\<close>

text \<open>\<^verbatim>\<open>Math.hypot\<close> and \<^verbatim>\<open>Math.atan2\<close> (with \<^verbatim>\<open>atan2(0, 0) = 0\<close>).\<close>

definition hypot :: "real \<Rightarrow> real \<Rightarrow> real" where
  "hypot a b = sqrt (a * a + b * b)"

definition atan2 :: "real \<Rightarrow> real \<Rightarrow> real" where
  "atan2 b a =
     (if 0 < a then arctan (b / a)
      else if a < 0 then (if 0 \<le> b then arctan (b / a) + pi else arctan (b / a) - pi)
      else if 0 < b then pi / 2
      else if b < 0 then - (pi / 2)
      else 0)"

section \<open>Rasters\<close>

text \<open>
  An \<^verbatim>\<open>ImageData\<close>: its dimensions and its RGBA buffer.  Nothing in the file
  checks that the buffer has \<open>4 * width * height\<close> entries.
\<close>

record imageData =
  img_width :: nat
  img_height :: nat
  img_data :: "uint8 list"

text \<open>
  Reading a typed array out of range gives \<^verbatim>\<open>undefined\<close>, which is not a number
  in arithmetic: \<open>None\<close>.  Writing out of range does nothing, as \<open>xs[i := v]\<close>
  does.  Storing a number in a \<^verbatim>\<open>Uint8ClampedArray\<close> clamps it to 0..255 and
  rounds it to the nearest integer, a tie to the even one; storing what is not a
  number stores 0.  \<^verbatim>\<open>Math.round\<close> rounds a tie upwards.
\<close>

definition getU8 :: "uint8 list \<Rightarrow> nat \<Rightarrow> real option" where
  "getU8 xs i = (if i < length xs then Some (real (unat (xs ! i))) else None)"

definition toUint8Clamp :: "real \<Rightarrow> uint8" where
  "toUint8Clamp v =
     (if v \<le> 0 then 0
      else if v \<ge> 255 then 255
      else
        let f = \<lfloor>v\<rfloor> in
        if real_of_int f + 1 / 2 < v then of_int (f + 1)
        else if v < real_of_int f + 1 / 2 then of_int f
        else if even f then of_int f
        else of_int (f + 1))"

definition storeU8 :: "real option \<Rightarrow> uint8" where
  "storeU8 v = (case v of None \<Rightarrow> 0 | Some r \<Rightarrow> toUint8Clamp r)"

definition js_round :: "real \<Rightarrow> int" where
  "js_round v = \<lfloor>v + 1 / 2\<rfloor>"

text \<open>
  The loops \<^verbatim>\<open>for (y = 1; y < height - 1; y++) for (x = 1; x < width - 1; x++)\<close>
  over the interior pixels, and the index of the neighbour \<open>(x + kx, y + ky)\<close>.
\<close>

definition forInterior :: "nat \<Rightarrow> nat \<Rightarrow> (nat \<Rightarrow> nat \<Rightarrow> 's \<Rightarrow> 's) \<Rightarrow> 's \<Rightarrow> 's" where
  "forInterior width height body s =
     fold (\<lambda>y. fold (\<lambda>x. body x y) [1..<width - 1]) [1..<height - 1] s"

text \<open>The pixels these loops visit, in the order of the visits.\<close>

definition interiorPixels :: "nat \<Rightarrow> nat \<Rightarrow> (nat \<times> nat) list" where
  "interiorPixels width height =
     concat (map (\<lambda>y. map (\<lambda>x. (x, y)) [1..<width - 1]) [1..<height - 1])"

definition nbIdx :: "nat \<Rightarrow> nat \<Rightarrow> nat \<Rightarrow> int \<Rightarrow> int \<Rightarrow> nat" where
  "nbIdx width x y kx ky = nat ((int y + ky) * int width + (int x + kx))"

text \<open>The entry of the pixel \<open>(x, y)\<close> of a one-channel buffer, as a number.\<close>

definition pixelOf :: "uint8 list \<Rightarrow> nat \<Rightarrow> nat \<Rightarrow> nat \<Rightarrow> real" where
  "pixelOf d width x y = real (unat (d ! (y * width + x)))"

section \<open>Grayscale and blur\<close>

definition grayValue :: "uint8 list \<Rightarrow> nat \<Rightarrow> uint8" where
  "grayValue d i =
     (case (getU8 d i, getU8 d (i + 1), getU8 d (i + 2)) of
        (Some r, Some g, Some b) \<Rightarrow>
          toUint8Clamp (real_of_int (js_round (0.299 * r + 0.587 * g + 0.114 * b)))
      | _ \<Rightarrow> 0)"

definition toGrayscale :: "imageData \<Rightarrow> uint8 list" where
  "toGrayscale imgData =
     fold (\<lambda>k gray. gray[k := grayValue (img_data imgData) (4 * k)])
          [0..<(length (img_data imgData) + 3) div 4]
          (replicate (img_width imgData * img_height imgData) 0)"

definition kernel' :: "real list list" where
  "kernel' = [[1, 2, 1], [2, 4, 2], [1, 2, 1]]"

definition blurSum :: "uint8 list \<Rightarrow> nat \<Rightarrow> nat \<Rightarrow> nat \<Rightarrow> real option" where
  "blurSum d width x y =
     fold (\<lambda>ky. fold (\<lambda>kx sum.
             case (sum, getU8 d (nbIdx width x y kx ky)) of
               (Some s, Some v) \<Rightarrow> Some (s + v * kernel' ! nat (ky + 1) ! nat (kx + 1))
             | _ \<Rightarrow> None) [- 1, 0, 1]) [- 1, 0, 1] (Some 0)"

definition gaussianBlur :: "uint8 list \<Rightarrow> nat \<Rightarrow> nat \<Rightarrow> uint8 list" where
  "gaussianBlur d width height =
     forInterior width height
       (\<lambda>x y result.
          result[y * width + x := storeU8 (map_option (\<lambda>sum. sum / 16) (blurSum d width x y))])
       (replicate (length d) 0)"

section \<open>Gradient and ridge thinning\<close>

text \<open>
  The two float buffers are lists of reals.  Both stages are only called on
  buffers of \<open>width * height\<close> entries, where every read below is in range.
\<close>

definition sobelX :: "real list list" where
  "sobelX = [[- 1, 0, 1], [- 2, 0, 2], [- 1, 0, 1]]"

definition sobelY :: "real list list" where
  "sobelY = [[- 1, - 2, - 1], [0, 0, 0], [1, 2, 1]]"

definition gradient :: "real list list \<Rightarrow> uint8 list \<Rightarrow> nat \<Rightarrow> nat \<Rightarrow> nat \<Rightarrow> real" where
  "gradient k d width x y =
     fold (\<lambda>ky. fold (\<lambda>kx g.
             g + real (unat (d ! nbIdx width x y kx ky)) * k ! nat (ky + 1) ! nat (kx + 1))
           [- 1, 0, 1]) [- 1, 0, 1] 0"

definition sobelEdgeDetection :: "uint8 list \<Rightarrow> nat \<Rightarrow> nat \<Rightarrow> real list \<times> real list" where
  "sobelEdgeDetection d width height =
     forInterior width height
       (\<lambda>x y (magnitude, direction).
          let gx = gradient sobelX d width x y;
              gy = gradient sobelY d width x y;
              idx = y * width + x
          in (magnitude[idx := sqrt (gx * gx + gy * gy)], direction[idx := atan2 gy gx]))
       (replicate (length d) 0, replicate (length d) 0)"

definition nonMaxSuppression :: "real list \<Rightarrow> real list \<Rightarrow> nat \<Rightarrow> nat \<Rightarrow> real list" where
  "nonMaxSuppression magnitude direction width height =
     forInterior width height
       (\<lambda>x y result.
          let idx = y * width + x;
              angle = direction ! idx * 180 / pi;
              normalizedAngle = (if angle < 0 then angle + 180 else angle);
              (neighbor1, neighbor2) =
                (if (normalizedAngle \<ge> 0 \<and> normalizedAngle < 22.5) \<or>
                    (normalizedAngle \<ge> 157.5 \<and> normalizedAngle \<le> 180)
                 then (magnitude ! (y * width + (x + 1)), magnitude ! (y * width + (x - 1)))
                 else if normalizedAngle \<ge> 22.5 \<and> normalizedAngle < 67.5
                 then (magnitude ! ((y + 1) * width + (x - 1)), magnitude ! ((y - 1) * width + (x + 1)))
                 else if normalizedAngle \<ge> 67.5 \<and> normalizedAngle < 112.5
                 then (magnitude ! ((y + 1) * width + x), magnitude ! ((y - 1) * width + x))
                 else (magnitude ! ((y - 1) * width + (x - 1)), magnitude ! ((y + 1) * width + (x + 1))))
          in if magnitude ! idx \<ge> neighbor1 \<and> magnitude ! idx \<ge> neighbor2
             then result[idx := magnitude ! idx] else result)
       (replicate (length magnitude) 0)"

section \<open>Double threshold and hysteresis\<close>

definition maxMagnitude :: "real list \<Rightarrow> real" where
  "maxMagnitude edges =
     fold (\<lambda>i maxMag. if edges ! i > maxMag then edges ! i else maxMag) [0..<length edges] 0"

definition applyThresholds :: "real list \<Rightarrow> uint8 list" where
  "applyThresholds edges =
     (let maxMag = maxMagnitude edges;
          highThreshold = maxMag * 0.15;
          lowThreshold = highThreshold * 0.4
      in fold (\<lambda>i result.
                 if edges ! i \<ge> highThreshold then result[i := 255]
                 else if edges ! i \<ge> lowThreshold then result[i := 128]
                 else result)
              [0..<length edges] (replicate (length edges) 0))"

text \<open>
  The hysteresis loop runs on the buffer it writes: a neighbour that was visited
  before holds its new value.  A read out of range is \<^verbatim>\<open>undefined\<close>, equal to
  neither 128 nor 255.
\<close>

definition hasStrongNeighbor :: "uint8 list \<Rightarrow> nat \<Rightarrow> nat \<Rightarrow> nat \<Rightarrow> bool" where
  "hasStrongNeighbor result width x y =
     list_ex (\<lambda>dy. list_ex (\<lambda>dx.
        nbIdx width x y dx dy < length result \<and> result ! nbIdx width x y dx dy = 255)
        [- 1, 0, 1]) [- 1, 0, 1]"

definition trackEdge :: "nat \<Rightarrow> nat \<Rightarrow> nat \<Rightarrow> uint8 list \<Rightarrow> uint8 list" where
  "trackEdge width x y result =
     (let idx = y * width + x in
      if idx < length result \<and> result ! idx = 128
      then result[idx := (if hasStrongNeighbor result width x y then 255 else 0)]
      else result)"

definition doubleThreshold :: "real list \<Rightarrow> nat \<Rightarrow> nat \<Rightarrow> uint8 list" where
  "doubleThreshold edges width height =
     forInterior width height (trackEdge width) (applyThresholds edges)"

section \<open>Contours\<close>

text \<open>
  The flood fill of \<^verbatim>\<open>traceContour\<close>.  The stack is a list whose head is the top;
  the eight neighbours are pushed in the order of \<^verbatim>\<open>directions\<close>, so the last of
  them is popped first.  \<^verbatim>\<open>visited\<close> is shared by all the traces of one call of
  \<^verbatim>\<open>findContours\<close>.  A pixel inside the frame whose index lies beyond the buffers
  is never marked visited and is pushed again and again: \<open>None\<close>.
\<close>

definition directions :: "(int \<times> int) list" where
  "directions = [(0, 1), (1, 1), (1, 0), (1, - 1), (0, - 1), (- 1, - 1), (- 1, 0), (- 1, 1)]"

lemma unvisited_decreases:
  "i < length v \<Longrightarrow> \<not> v ! i \<Longrightarrow> length (filter Not (v[i := True])) < length (filter Not v)"
proof (induction v arbitrary: i)
  case Nil
  then show ?case by simp
next
  case (Cons a v)
  then show ?case by (cases i) auto
qed

function traceContour ::
  "uint8 list \<Rightarrow> nat \<Rightarrow> nat \<Rightarrow> (int \<times> int) list \<Rightarrow> bool list \<Rightarrow> point list
     \<Rightarrow> (bool list \<times> point list) option" where
  "traceContour edges width height [] visited contour = Some (visited, contour)"
| "traceContour edges width height ((x, y) # stack) visited contour =
     (if x < 0 \<or> x \<ge> int width \<or> y < 0 \<or> y \<ge> int height
      then traceContour edges width height stack visited contour
      else
        let idx = nat (y * int width + x) in
        if idx \<ge> length visited then None
        else if visited ! idx \<or> edges ! idx = 0
        then traceContour edges width height stack visited contour
        else traceContour edges width height
               (rev (map (\<lambda>(dx, dy). (x + dx, y + dy)) directions) @ stack)
               (visited[idx := True])
               (contour @ [\<lparr>px = real_of_int x, py = real_of_int y\<rparr>]))"
  by pat_completeness auto
termination
  by (relation "measures [\<lambda>(edges, width, height, stack, visited, contour).
                            length (filter Not visited),
                          \<lambda>(edges, width, height, stack, visited, contour). length stack]")
     (auto simp: unvisited_decreases)

definition seedContour ::
  "uint8 list \<Rightarrow> nat \<Rightarrow> nat \<Rightarrow> nat \<Rightarrow> nat \<Rightarrow> (bool list \<times> point list list) option
     \<Rightarrow> (bool list \<times> point list list) option" where
  "seedContour edges width height x y state =
     (case state of
        None \<Rightarrow> None
      | Some (visited, contours) \<Rightarrow>
          let idx = y * width + x in
          if idx < length edges \<and> edges ! idx = 255 \<and> \<not> visited ! idx then
            (case traceContour edges width height [(int x, int y)] visited [] of
               None \<Rightarrow> None
             | Some (visited', contour) \<Rightarrow>
                 Some (visited', if length contour > 50 then contours @ [contour] else contours))
          else Some (visited, contours))"

definition findContours :: "uint8 list \<Rightarrow> nat \<Rightarrow> nat \<Rightarrow> point list list option" where
  "findContours edges width height =
     map_option snd
       (fold (\<lambda>y. fold (\<lambda>x. seedContour edges width height x y) [0..<width]) [0..<height]
          (Some (replicate (length edges) False, [])))"

section \<open>Corner ordering\<close>

text \<open>
  \<^verbatim>\<open>Array.prototype.sort\<close> is stable, and a comparator \<^verbatim>\<open>(a, b) => key(a) - key(b)\<close>
  orders by the key, so the sort is \<^const>\<open>sort_key\<close> (a stable insertion sort).
  The comparator \<^verbatim>\<open>(b.x - b.y) - (a.x - a.y)\<close> is the descending order of
  \<^verbatim>\<open>x - y\<close>, that is the ascending order of its negation.

  \<^verbatim>\<open>orderCorners\<close> reads \<^verbatim>\<open>sorted[0]\<close> to \<^verbatim>\<open>sorted[3]\<close>.  With fewer than four
  corners some of them are \<^verbatim>\<open>undefined\<close> and the result is not a list of four
  points: that is the value \<open>None\<close>.  Corners beyond the fourth of the sorted
  list are dropped.
\<close>

definition orderCorners :: "point list \<Rightarrow> point list option" where
  "orderCorners corners =
     (let sorted = sort_key (\<lambda>a. px a + py a) corners in
      if length sorted < 4 then None
      else
        let topLeft = sorted ! 0;
            bottomRight = sorted ! 3;
            remaining = sort_key (\<lambda>a. - (px a - py a)) [sorted ! 1, sorted ! 2];
            topRight = remaining ! 0;
            bottomLeft = remaining ! 1
        in Some [topLeft, topRight, bottomRight, bottomLeft])"

section \<open>Convex hull (Graham scan)\<close>

text \<open>
  \<^verbatim>\<open>convexHull\<close> swaps the lowest point to index 0 of the array it is given, so
  the model returns the array as the caller sees it afterwards together with the
  hull.  The stack of the scan is a list whose last element is the top.  (The
  variable \<^verbatim>\<open>hull\<close> is written \<open>hull'\<close>, the word being notation of the library.)
\<close>

definition lowestIndex :: "point list \<Rightarrow> nat" where
  "lowestIndex points =
     fold (\<lambda>i lowest.
             if py (points ! i) < py (points ! lowest) \<or>
                (py (points ! i) = py (points ! lowest) \<and> px (points ! i) < px (points ! lowest))
             then i else lowest)
          [1..<length points] 0"

definition swapElems :: "'a list \<Rightarrow> nat \<Rightarrow> nat \<Rightarrow> 'a list" where
  "swapElems xs i j = (xs[i := xs ! j])[j := xs ! i]"

function popHull :: "point list \<Rightarrow> point \<Rightarrow> point list" where
  "popHull hull' point =
     (if length hull' > 1 then
        let top' = hull' ! (length hull' - 1);
            second = hull' ! (length hull' - 2);
            cross = (px top' - px second) * (py point - py second) -
                    (py top' - py second) * (px point - px second)
        in if cross \<le> 0 then popHull (butlast hull') point else hull'
      else hull')"
  by pat_completeness auto
termination
  by (relation "measure (\<lambda>(hull', point). length hull')") auto

declare popHull.simps [simp del]

definition convexHull :: "point list \<Rightarrow> point list \<times> point list" where
  "convexHull points =
     (if length points < 3 then (points, points)
      else
        let points' = swapElems points 0 (lowestIndex points);
            pivot = points' ! 0;
            sorted = sort_key (\<lambda>a. atan2 (py a - py pivot) (px a - px pivot)) (drop 1 points');
            hull' = fold (\<lambda>point hull'. popHull hull' point @ [point]) sorted [pivot]
        in (points', hull'))"

section \<open>Polygon approximation (Douglas-Peucker)\<close>

definition pointToLineDistance :: "point \<Rightarrow> point \<Rightarrow> point \<Rightarrow> real" where
  "pointToLineDistance point lineStart lineEnd =
     (let A = px point - px lineStart;
          B = py point - py lineStart;
          C = px lineEnd - px lineStart;
          D = py lineEnd - py lineStart;
          dot = A * C + B * D;
          lenSq = C * C + D * D;
          param = (if lenSq \<noteq> 0 then dot / lenSq else - 1);
          xx = (if param < 0 then px lineStart
                else if param > 1 then px lineEnd
                else px lineStart + param * C);
          yy = (if param < 0 then py lineStart
                else if param > 1 then py lineEnd
                else py lineStart + param * D)
      in hypot (px point - xx) (py point - yy))"

definition totalLength :: "point list \<Rightarrow> real" where
  "totalLength hull' =
     fold (\<lambda>i sum. let p = hull' ! i; next = hull' ! ((i + 1) mod length hull')
                    in sum + hypot (px next - px p) (py next - py p))
          [0..<length hull'] 0"

text \<open>The search loop of \<^verbatim>\<open>douglasPeucker\<close>: the pair \<open>(maxDist, maxIdx)\<close>.\<close>

definition farthest :: "point list \<Rightarrow> nat \<Rightarrow> nat \<Rightarrow> real \<times> nat" where
  "farthest hull' start end' =
     fold (\<lambda>i (maxDist, maxIdx).
             let dist = pointToLineDistance (hull' ! (i mod length hull')) (hull' ! start)
                          (hull' ! (end' mod length hull'))
             in if dist > maxDist then (dist, i) else (maxDist, maxIdx))
          [start + 1..<end'] (0, start)"

text \<open>
  \<^verbatim>\<open>douglasPeucker\<close> appends to the array \<^verbatim>\<open>result\<close> of the enclosing call.  The
  entries of the hull are distinct objects, so \<^verbatim>\<open>result.includes(hull[start])\<close>
  asks whether the index \<open>start\<close> was pushed before, and \<open>result\<close> is kept as the
  list of pushed indices.  The threshold \<open>thr\<close> is \<^verbatim>\<open>epsilon * totalLength\<close>.
  When the threshold is negative and no point lies off the chord, \<^verbatim>\<open>maxIdx\<close> stays
  at \<open>start\<close> and the source calls itself on \<open>(start, start)\<close> without end: the
  value \<open>None\<close>.
\<close>

function douglasPeucker :: "point list \<Rightarrow> real \<Rightarrow> nat \<Rightarrow> nat \<Rightarrow> nat list \<Rightarrow> nat list option" where
  "douglasPeucker hull' thr start end' result =
     (let maxDist = fst (farthest hull' start end');
          maxIdx = snd (farthest hull' start end')
      in if maxDist > thr then
           (if start < maxIdx \<and> maxIdx < end' then
              (case douglasPeucker hull' thr start maxIdx result of
                 None \<Rightarrow> None
               | Some result' \<Rightarrow> douglasPeucker hull' thr maxIdx end' result')
            else None)
         else Some (if start \<in> set result then result else result @ [start]))"
  by pat_completeness auto
termination
  by (relation "measure (\<lambda>(hull', thr, start, end', result). end' - start)") auto

declare douglasPeucker.simps [simp del]

definition approximatePolygon :: "point list \<Rightarrow> real \<Rightarrow> failure + point list" where
  "approximatePolygon hull' epsilon =
     (if length hull' < 4 then Inr hull'
      else
        case douglasPeucker hull' (epsilon * totalLength hull') 0 (length hull') [] of
          None \<Rightarrow> Inl RangeError
        | Some result \<Rightarrow> Inr (map (\<lambda>i. hull' ! i) result))"

section \<open>Quadrilateral selection\<close>

text \<open>
  \<^verbatim>\<open>findBestQuadrilateral\<close> returns the object \<^verbatim>\<open>{ corners, confidence }\<close>: a pair.
\<close>

definition quadArea :: "point list \<Rightarrow> real" where
  "quadArea polygon =
     \<bar>(px (polygon ! 0) * py (polygon ! 1) - px (polygon ! 1) * py (polygon ! 0)) +
      (px (polygon ! 1) * py (polygon ! 2) - px (polygon ! 2) * py (polygon ! 1)) +
      (px (polygon ! 2) * py (polygon ! 3) - px (polygon ! 3) * py (polygon ! 2)) +
      (px (polygon ! 3) * py (polygon ! 0) - px (polygon ! 0) * py (polygon ! 3))\<bar> / 2"

text \<open>
  The body of the loop over the contours, on the pair \<open>(bestQuad, bestScore)\<close>.
  When \<^verbatim>\<open>imageArea\<close> is 0 the quotient is infinite or not a number in the source
  and 0 here; either way both comparisons of the area test cannot hold.
\<close>

definition scoreContour ::
  "real \<Rightarrow> real \<Rightarrow> point list \<times> real \<Rightarrow> point list \<Rightarrow> failure + point list \<times> real" where
  "scoreContour width height best contour =
     (let hull' = snd (convexHull contour) in
      case approximatePolygon hull' 0.02 of
        Inl e \<Rightarrow> Inl e
      | Inr polygon \<Rightarrow>
          if length polygon = 4 then
            let area = quadArea polygon;
                imageArea = width * height;
                areaRatio = area / imageArea
            in if areaRatio > 0.1 \<and> areaRatio < 0.95 then
                 let score = areaRatio * 100
                 in if score > snd best then Inr (polygon, score) else Inr best
               else Inr best
          else Inr best)"

fun scanContours ::
  "real \<Rightarrow> real \<Rightarrow> point list list \<Rightarrow> point list \<times> real \<Rightarrow> failure + point list \<times> real" where
  "scanContours width height [] best = Inr best"
| "scanContours width height (contour # contours) best =
     (case scoreContour width height best contour of
        Inl e \<Rightarrow> Inl e
      | Inr best' \<Rightarrow> scanContours width height contours best')"

text \<open>
  A contour qualifies when its simplified hull has four vertices and passes the
  area test of the loop above.
\<close>

definition qualifies :: "real \<Rightarrow> real \<Rightarrow> point list \<Rightarrow> bool" where
  "qualifies width height contour =
     (case approximatePolygon (snd (convexHull contour)) 0.02 of
        Inl e \<Rightarrow> False
      | Inr polygon \<Rightarrow>
          length polygon = 4 \<and>
          quadArea polygon / (width * height) > 0.1 \<and>
          quadArea polygon / (width * height) < 0.95)"

definition fallbackQuad :: "real \<Rightarrow> real \<Rightarrow> point list" where
  "fallbackQuad width height =
     (let margin = min width height * 0.05 in
      [\<lparr>px = margin, py = margin\<rparr>,
       \<lparr>px = width - margin, py = margin\<rparr>,
       \<lparr>px = width - margin, py = height - margin\<rparr>,
       \<lparr>px = margin, py = height - margin\<rparr>])"

definition findBestQuadrilateral ::
  "point list list \<Rightarrow> real \<Rightarrow> real \<Rightarrow> failure + point list option \<times> real" where
  "findBestQuadrilateral contours width height =
     (case scanContours width height contours ([], 0) of
        Inl e \<Rightarrow> Inl e
      | Inr (bestQuad, bestScore) \<Rightarrow>
          if length bestQuad \<noteq> 4 then
            Inr (orderCorners (fallbackQuad width height), min 30 95)
          else
            Inr (orderCorners bestQuad, min bestScore 95))"

section \<open>Homography\<close>

text \<open>
  The matrices are lists of rows.  \<^verbatim>\<open>solveHomography\<close> first accumulates the
  normal equations; entry by entry, the sums run over the rows \<open>i\<close> of \<open>A\<close> in
  the order of the source.  The local constant \<^verbatim>\<open>n = 8\<close> is a parameter of the
  loops below.
\<close>

definition normalMatrix :: "real list list \<Rightarrow> real list list" where
  "normalMatrix A =
     map (\<lambda>j. map (\<lambda>k. fold (\<lambda>i s. s + A ! i ! j * A ! i ! k) [0..<8] 0) [0..<8]) [0..<8]"

definition normalRhs :: "real list list \<Rightarrow> real list" where
  "normalRhs A = map (\<lambda>j. fold (\<lambda>i s. s + A ! i ! j * (- (A ! i ! 8))) [0..<8] 0) [0..<8]"

definition findMaxRow :: "nat \<Rightarrow> real list list \<Rightarrow> nat \<Rightarrow> nat" where
  "findMaxRow n AtA i =
     fold (\<lambda>k maxRow. if \<bar>AtA ! k ! i\<bar> > \<bar>AtA ! maxRow ! i\<bar> then k else maxRow) [i + 1..<n] i"

definition eliminateRow ::
  "nat \<Rightarrow> nat \<Rightarrow> nat \<Rightarrow> real list list \<times> real list \<Rightarrow> real list list \<times> real list" where
  "eliminateRow n i k = (\<lambda>(AtA, Atb).
     if AtA ! i ! i \<noteq> 0 then
       let c = AtA ! k ! i / AtA ! i ! i
       in (AtA[k := fold (\<lambda>j row. row[j := row ! j - c * AtA ! i ! j]) [i..<n] (AtA ! k)],
           Atb[k := Atb ! k - c * Atb ! i])
     else (AtA, Atb))"

definition eliminateStep ::
  "nat \<Rightarrow> nat \<Rightarrow> real list list \<times> real list \<Rightarrow> real list list \<times> real list" where
  "eliminateStep n i = (\<lambda>(AtA, Atb).
     let maxRow = findMaxRow n AtA i
     in fold (eliminateRow n i) [i + 1..<n] (swapElems AtA i maxRow, swapElems Atb i maxRow))"

definition eliminate :: "nat \<Rightarrow> real list list \<times> real list \<Rightarrow> real list list \<times> real list" where
  "eliminate n = fold (eliminateStep n) [0..<n]"

definition backSubstitute :: "nat \<Rightarrow> real list list \<times> real list \<Rightarrow> real list" where
  "backSubstitute n = (\<lambda>(AtA, Atb).
     fold (\<lambda>i x.
             let xi = fold (\<lambda>j xi. xi - AtA ! i ! j * x ! j) [i + 1..<n] (Atb ! i)
             in x[i := (if AtA ! i ! i \<noteq> 0 then xi / AtA ! i ! i else xi)])
          (rev [0..<n]) (replicate n 0))"

definition solveHomography :: "real list list \<Rightarrow> real list" where
  "solveHomography A = backSubstitute 8 (eliminate 8 (normalMatrix A, normalRhs A)) @ [1]"

definition homographyRows :: "point \<Rightarrow> point \<Rightarrow> real list list" where
  "homographyRows s d =
     (let sx = px s; sy = py s; dx = px d; dy = py d
      in [[- sx, - sy, - 1, 0, 0, 0, sx * dx, sy * dx, dx],
          [0, 0, 0, - sx, - sy, - 1, sx * dy, sy * dy, dy]])"

text \<open>\<^verbatim>\<open>src[i].x\<close> raises a \<^verbatim>\<open>TypeError\<close> when a list has fewer than four points.\<close>

definition computeHomography :: "point list \<Rightarrow> point list \<Rightarrow> failure + real list" where
  "computeHomography src dst =
     (if length src < 4 \<or> length dst < 4 then Inl TypeError
      else Inr (solveHomography (concat (map (\<lambda>i. homographyRows (src ! i) (dst ! i)) [0..<4]))))"

section \<open>Perspective resampling\<close>

text \<open>
  A quotient by zero is infinite or not a number in the source; \<^verbatim>\<open>Math.floor\<close>
  keeps it so, and then the test of the 2 by 2 neighbourhood fails (an infinite
  \<^verbatim>\<open>x0\<close> has \<^verbatim>\<open>x1 = x0 + 1\<close> infinite, or is negative; no comparison with what
  is not a number holds).  Such a quotient is \<open>None\<close>.
\<close>

definition jsDiv :: "real \<Rightarrow> real \<Rightarrow> real option" where
  "jsDiv a b = (if b = 0 then None else Some (a / b))"

definition inSource :: "imageData \<Rightarrow> int \<Rightarrow> int \<Rightarrow> bool" where
  "inSource sourceData x0 y0 =
     (x0 \<ge> 0 \<and> x0 + 1 < int (img_width sourceData) \<and> y0 \<ge> 0 \<and> y0 + 1 < int (img_height sourceData))"

definition srcIdx :: "imageData \<Rightarrow> int \<Rightarrow> int \<Rightarrow> nat \<Rightarrow> nat" where
  "srcIdx sourceData x' y' c = nat ((y' * int (img_width sourceData) + x') * 4 + int c)"

definition bilinear :: "imageData \<Rightarrow> int \<Rightarrow> int \<Rightarrow> real \<Rightarrow> real \<Rightarrow> nat \<Rightarrow> real option" where
  "bilinear sourceData x0 y0 xWeight yWeight c =
     (case (getU8 (img_data sourceData) (srcIdx sourceData x0 y0 c),
            getU8 (img_data sourceData) (srcIdx sourceData (x0 + 1) y0 c),
            getU8 (img_data sourceData) (srcIdx sourceData x0 (y0 + 1) c),
            getU8 (img_data sourceData) (srcIdx sourceData (x0 + 1) (y0 + 1) c)) of
        (Some d00, Some d01, Some d10, Some d11) \<Rightarrow>
          Some (d00 * (1 - xWeight) * (1 - yWeight) +
                d01 * xWeight * (1 - yWeight) +
                d10 * (1 - xWeight) * yWeight +
                d11 * xWeight * yWeight)
      | _ \<Rightarrow> None)"

definition warpPixel :: "imageData \<Rightarrow> real list \<Rightarrow> nat \<Rightarrow> nat \<Rightarrow> nat \<Rightarrow> uint8 list \<Rightarrow> uint8 list" where
  "warpPixel sourceData H outputWidth x y outputData =
     (let w = H ! 6 * real x + H ! 7 * real y + H ! 8;
          srcX = jsDiv (H ! 0 * real x + H ! 1 * real y + H ! 2) w;
          srcY = jsDiv (H ! 3 * real x + H ! 4 * real y + H ! 5) w
      in case (srcX, srcY) of
           (Some sx, Some sy) \<Rightarrow>
             let x0 = \<lfloor>sx\<rfloor>; y0 = \<lfloor>sy\<rfloor> in
             if inSource sourceData x0 y0 then
               let xWeight = sx - real_of_int x0; yWeight = sy - real_of_int y0
               in fold (\<lambda>c out.
                          out[(y * outputWidth + x) * 4 + c :=
                                storeU8 (bilinear sourceData x0 y0 xWeight yWeight c)])
                       [0..<4] outputData
             else outputData
         | _ \<Rightarrow> outputData)"

definition warpAll :: "imageData \<Rightarrow> real list \<Rightarrow> nat \<Rightarrow> nat \<Rightarrow> uint8 list" where
  "warpAll sourceData H outputWidth outputHeight =
     fold (\<lambda>y. fold (\<lambda>x. warpPixel sourceData H outputWidth x y) [0..<outputWidth])
          [0..<outputHeight] (replicate (outputWidth * outputHeight * 4) 0)"

text \<open>
  For the proofs: what the body of the loops stores in channel \<open>c\<close> of the
  pixel \<open>(x, y)\<close>, if anything; and a channel of a source pixel as a number.
\<close>

definition warpValue :: "imageData \<Rightarrow> real list \<Rightarrow> nat \<Rightarrow> nat \<Rightarrow> nat \<Rightarrow> uint8 option" where
  "warpValue sourceData H x y c =
     (let w = H ! 6 * real x + H ! 7 * real y + H ! 8;
          srcX = jsDiv (H ! 0 * real x + H ! 1 * real y + H ! 2) w;
          srcY = jsDiv (H ! 3 * real x + H ! 4 * real y + H ! 5) w
      in case (srcX, srcY) of
           (Some sx, Some sy) \<Rightarrow>
             if inSource sourceData \<lfloor>sx\<rfloor> \<lfloor>sy\<rfloor> then
               Some (storeU8 (bilinear sourceData \<lfloor>sx\<rfloor> \<lfloor>sy\<rfloor>
                       (sx - real_of_int \<lfloor>sx\<rfloor>) (sy - real_of_int \<lfloor>sy\<rfloor>) c))
             else None
         | _ \<Rightarrow> None)"

definition channelOf :: "imageData \<Rightarrow> int \<Rightarrow> int \<Rightarrow> nat \<Rightarrow> real" where
  "channelOf sourceData x' y' c = real (unat (img_data sourceData ! srcIdx sourceData x' y' c))"

definition outputPixels :: "nat \<Rightarrow> nat \<Rightarrow> (nat \<times> nat \<times> nat) list" where
  "outputPixels outputWidth outputHeight =
     concat (map (\<lambda>y. concat (map (\<lambda>x. map (\<lambda>c. (x, y, c)) [0..<4]) [0..<outputWidth]))
               [0..<outputHeight])"

text \<open>
  \<^verbatim>\<open>perspectiveTransform\<close>, from the pixels of the source canvas to those of the
  output canvas (a new \<^verbatim>\<open>ImageData\<close> is all zero).  The canvas raises an
  \<^verbatim>\<open>IndexSizeError\<close> when \<^verbatim>\<open>createImageData\<close> is given an output width or height
  of 0, and when \<^verbatim>\<open>getImageData\<close> is asked for a source of width or height 0.
\<close>

definition perspectiveTransform :: "imageData \<Rightarrow> point list \<Rightarrow> nat \<Rightarrow> nat \<Rightarrow> failure + imageData" where
  "perspectiveTransform sourceData corners outputWidth outputHeight =
     (if outputWidth = 0 \<or> outputHeight = 0 then Inl IndexSizeError
      else if img_width sourceData = 0 \<or> img_height sourceData = 0 then Inl IndexSizeError
      else
        let dst = [\<lparr>px = 0, py = 0\<rparr>,
                   \<lparr>px = real outputWidth, py = 0\<rparr>,
                   \<lparr>px = real outputWidth, py = real outputHeight\<rparr>,
                   \<lparr>px = 0, py = real outputHeight\<rparr>]
        in case computeHomography dst corners of
             Inl e \<Rightarrow> Inl e
           | Inr H \<Rightarrow>
               Inr \<lparr>img_width = outputWidth, img_height = outputHeight,
                    img_data = warpAll sourceData H outputWidth outputHeight\<rparr>)"

section \<open>The pipeline\<close>

text \<open>
  \<^verbatim>\<open>processDocument\<close> from the pixels of the decoded image on; the result holds
  the pixels of the output canvas in place of their JPEG encoding.  The raster
  is what \<^verbatim>\<open>getImageData\<close> returns for the whole canvas; for a canvas of width or
  height 0 that call raises an \<^verbatim>\<open>IndexSizeError\<close> inside the \<^verbatim>\<open>onload\<close> handler,
  and the promise is never resolved.
\<close>

record processingResult =
  processedImageData :: imageData
  corners :: "point list"
  confidence :: real
  warning :: "string option"

definition detectEdges :: "imageData \<Rightarrow> uint8 list" where
  "detectEdges imgData =
     (let width = img_width imgData;
          height = img_height imgData;
          gray = toGrayscale imgData;
          blurred = gaussianBlur gray width height;
          (magnitude, direction) = sobelEdgeDetection blurred width height;
          thinEdges = nonMaxSuppression magnitude direction width height
      in doubleThreshold thinEdges width height)"

definition outputSize :: "point list \<Rightarrow> nat \<times> nat" where
  "outputSize cs =
     (let width1 = hypot (px (cs ! 1) - px (cs ! 0)) (py (cs ! 1) - py (cs ! 0));
          width2 = hypot (px (cs ! 2) - px (cs ! 3)) (py (cs ! 2) - py (cs ! 3));
          height1 = hypot (px (cs ! 3) - px (cs ! 0)) (py (cs ! 3) - py (cs ! 0));
          height2 = hypot (px (cs ! 2) - px (cs ! 1)) (py (cs ! 2) - py (cs ! 1))
      in (nat (js_round (max width1 width2)), nat (js_round (max height1 height2))))"

definition processDocument :: "imageData \<Rightarrow> failure + processingResult" where
  "processDocument imgData =
     (let width = img_width imgData;
          height = img_height imgData
      in if width = 0 \<or> height = 0 then Inl IndexSizeError
         else
           let edges = detectEdges imgData
           in case findContours edges width height of
                None \<Rightarrow> Inl NoReturn
              | Some contours \<Rightarrow>
                  (case findBestQuadrilateral contours (real width) (real height) of
                     Inl e \<Rightarrow> Inl e
                   | Inr (None, conf) \<Rightarrow> Inl TypeError
                   | Inr (Some cs, conf) \<Rightarrow>
                       let (outputWidth, outputHeight) = outputSize cs
                       in case perspectiveTransform imgData cs outputWidth outputHeight of
                            Inl e \<Rightarrow> Inl e
                          | Inr resultCanvas \<Rightarrow>
                              Inr \<lparr>processedImageData = resultCanvas,
                                   corners = cs,
                                   confidence = conf,
                                   warning = (if conf < 50
                                     then Some ''Low confidence detection. Document edges may not be accurate.''
                                     else None)\<rparr>))"

section \<open>Linear systems\<close>





text \<open>A point of the pixel grid: both coordinates are whole numbers.\<close>

definition gridPoint :: "point \<Rightarrow> bool" where
  "gridPoint p \<longleftrightarrow> px p \<in> \<int> \<and> py p \<in> \<int>"


definition cross3 :: "point \<Rightarrow> point \<Rightarrow> point \<Rightarrow> real" where
  "cross3 a b c = (px b - px a) * (py c - py a) - (py b - py a) * (px c - px a)"

section \<open>The polygon approximation returns\<close>

lemma hypot_nonneg: "0 \<le> hypot a b"
  by (simp add: hypot_def)

lemma fold_add_nonneg:
  "(\<And>i. 0 \<le> g i) \<Longrightarrow> (0::real) \<le> a \<Longrightarrow> 0 \<le> fold (\<lambda>i s. s + g i) xs a"
  by (induction xs arbitrary: a) simp_all

lemma totalLength_nonneg: "0 \<le> totalLength hull'"
  unfolding totalLength_def Let_def
  by (rule fold_add_nonneg) (simp_all add: hypot_nonneg)

lemma farthest_fold:
  fixes g :: "nat \<Rightarrow> real"
  assumes "fold (\<lambda>i (maxDist, maxIdx). let dist = g i in if dist > maxDist then (dist, i) else (maxDist, maxIdx)) xs (d0, m0) = (d, m)"
  shows "d0 \<le> d \<and> ((d, m) = (d0, m0) \<or> (m \<in> set xs \<and> d0 < d))"
  using assms
proof (induction xs arbitrary: d0 m0)
  case Nil
  then show ?case by simp
next
  case (Cons a xs)
  show ?case
  proof (cases "g a > d0")
    case True
    with Cons.prems have "fold (\<lambda>i (maxDist, maxIdx). let dist = g i in if dist > maxDist then (dist, i) else (maxDist, maxIdx)) xs (g a, a) = (d, m)"
      by (simp add: Let_def)
    from Cons.IH [OF this] True show ?thesis by auto
  next
    case False
    with Cons.prems have "fold (\<lambda>i (maxDist, maxIdx). let dist = g i in if dist > maxDist then (dist, i) else (maxDist, maxIdx)) xs (d0, m0) = (d, m)"
      by (simp add: Let_def)
    from Cons.IH [OF this] show ?thesis by auto
  qed
qed

lemma farthest_cases:
  "0 \<le> fst (farthest hull' start end') \<and>
   (farthest hull' start end' = (0, start) \<or>
    (start < snd (farthest hull' start end') \<and> snd (farthest hull' start end') < end'))"
proof -
  obtain d m where dm: "farthest hull' start end' = (d, m)" by (cases "farthest hull' start end'")
  from dm [unfolded farthest_def] have "0 \<le> d \<and> ((d, m) = (0, start) \<or> (m \<in> set [start + 1..<end'] \<and> 0 < d))"
    by (rule farthest_fold)
  then show ?thesis unfolding dm by auto
qed

lemma douglasPeucker_returns:
  "0 \<le> thr \<Longrightarrow> \<exists>r. douglasPeucker hull' thr start end' result = Some r"
proof (induction hull' thr start end' result rule: douglasPeucker.induct)
  case (1 hull' thr start end' result)
  let ?d = "fst (farthest hull' start end')" and ?m = "snd (farthest hull' start end')"
  show ?case
  proof (cases "?d > thr")
    case False
    then show ?thesis by (subst douglasPeucker.simps) (simp add: Let_def)
  next
    case True
    with "1.prems" have "?d > 0" by simp
    with farthest_cases [of hull' start end'] have lt: "start < ?m \<and> ?m < end'" by auto
    from "1.IH"(1) [OF refl refl True lt "1.prems"] obtain r1
      where r1: "douglasPeucker hull' thr start ?m result = Some r1" by blast
    from "1.IH"(2) [OF refl refl True lt r1 "1.prems"] obtain r2
      where r2: "douglasPeucker hull' thr ?m end' r1 = Some r2" by blast
    show ?thesis
      by (subst douglasPeucker.simps) (simp add: Let_def True lt r1 r2)
  qed
qed

lemma approximatePolygon_returns: "\<exists>polygon. approximatePolygon hull' 0.02 = Inr polygon"
proof -
  have "0 \<le> 0.02 * totalLength hull'" using totalLength_nonneg [of hull'] by simp
  from douglasPeucker_returns [OF this] obtain r
    where "douglasPeucker hull' (0.02 * totalLength hull') 0 (length hull') [] = Some r" by blast
  then show ?thesis by (simp add: approximatePolygon_def)
qed

section \<open>The quadrilateral selector returns\<close>

lemma scoreContour_returns:
  "\<exists>best'. scoreContour width height best contour = Inr best' \<and>
     (0 \<le> snd best \<longrightarrow> 0 \<le> snd best') \<and>
     (best' = best \<or> (length (fst best') = 4 \<and> snd best' < 95 \<and> qualifies width height contour))"
proof -
  obtain polygon where p: "approximatePolygon (snd (convexHull contour)) 0.02 = Inr polygon"
    using approximatePolygon_returns by blast
  define r where "r = quadArea polygon / (width * height)"
  have sc: "scoreContour width height best contour =
      (if length polygon = 4 \<and> r > 0.1 \<and> r < 0.95 \<and> r * 100 > snd best
       then Inr (polygon, r * 100) else Inr best)"
    unfolding scoreContour_def Let_def p r_def by simp
  have q: "qualifies width height contour \<longleftrightarrow> length polygon = 4 \<and> r > 0.1 \<and> r < 0.95"
    unfolding qualifies_def p r_def by simp
  show ?thesis
  proof (cases "length polygon = 4 \<and> r > 0.1 \<and> r < 0.95 \<and> r * 100 > snd best")
    case True
    then have "r * 100 < 95" "0 \<le> r * 100" by simp_all
    moreover have "scoreContour width height best contour = Inr (polygon, r * 100)"
      unfolding sc using True by (rule if_P)
    moreover have "qualifies width height contour" using q True by blast
    ultimately show ?thesis using True by simp
  next
    case False
    have "scoreContour width height best contour = Inr best"
      unfolding sc using False by (rule if_not_P)
    then show ?thesis by simp
  qed
qed

lemma scanContours_returns:
  "0 \<le> snd best \<Longrightarrow> length (fst best) = 4 \<longrightarrow> snd best \<le> 95 \<Longrightarrow>
   \<exists>best'. scanContours width height contours best = Inr best' \<and> 0 \<le> snd best' \<and>
     (length (fst best') = 4 \<longrightarrow> snd best' \<le> 95) \<and>
     ((\<forall>c \<in> set contours. \<not> qualifies width height c) \<longrightarrow> best' = best)"
proof (induction contours arbitrary: best)
  case Nil
  then show ?case by simp
next
  case (Cons c contours)
  from scoreContour_returns [of width height best c] obtain b1
    where b1: "scoreContour width height best c = Inr b1"
      and nn: "0 \<le> snd best \<longrightarrow> 0 \<le> snd b1"
      and ch: "b1 = best \<or> (length (fst b1) = 4 \<and> snd b1 < 95 \<and> qualifies width height c)"
    by blast
  have 1: "0 \<le> snd b1" using nn Cons.prems(1) by simp
  have 2: "length (fst b1) = 4 \<longrightarrow> snd b1 \<le> 95" using ch Cons.prems(2) by auto
  from Cons.IH [OF 1 2] obtain b2 where b2: "scanContours width height contours b1 = Inr b2"
    and r: "0 \<le> snd b2" "length (fst b2) = 4 \<longrightarrow> snd b2 \<le> 95"
      "(\<forall>c \<in> set contours. \<not> qualifies width height c) \<longrightarrow> b2 = b1"
    by blast
  show ?case using b1 b2 r ch by auto
qed

lemma orderCorners_length4:
  "length q = 4 \<Longrightarrow> \<exists>cs. orderCorners q = Some cs \<and> length cs = 4"
  by (simp add: orderCorners_def Let_def)

lemma fallbackQuad_length: "length (fallbackQuad width height) = 4"
  by (simp add: fallbackQuad_def Let_def)

lemma orderCorners_fallbackQuad:
  "0 < width \<Longrightarrow> 0 < height \<Longrightarrow> orderCorners (fallbackQuad width height) = Some (fallbackQuad width height)"
  by (auto simp: fallbackQuad_def orderCorners_def Let_def min_def)

lemma findBestQuadrilateral_returns:
  "\<exists>cs conf. findBestQuadrilateral contours width height = Inr (Some cs, conf) \<and>
     length cs = 4 \<and> 0 \<le> conf \<and> conf \<le> 95"
proof -
  from scanContours_returns [of "([], 0)" width height contours] obtain bq bs
    where b: "scanContours width height contours ([], 0) = Inr (bq, bs)"
      and r: "0 \<le> bs" "length bq = 4 \<longrightarrow> bs \<le> 95"
    by auto
  show ?thesis
  proof (cases "length bq = 4")
    case True
    with orderCorners_length4 obtain cs where "orderCorners bq = Some cs" "length cs = 4" by blast
    with b r True show ?thesis by (simp add: findBestQuadrilateral_def)
  next
    case False
    from orderCorners_length4 [OF fallbackQuad_length] obtain cs
      where "orderCorners (fallbackQuad width height) = Some cs" "length cs = 4" by blast
    with b False show ?thesis by (simp add: findBestQuadrilateral_def)
  qed
qed

lemma findBestQuadrilateral_fallback:
  assumes "\<forall>c \<in> set contours. \<not> qualifies width height c"
  shows "findBestQuadrilateral contours width height = Inr (orderCorners (fallbackQuad width height), 30)"
proof -
  from scanContours_returns [of "([], 0)" width height contours] assms
  have "scanContours width height contours ([], 0) = Inr ([], 0)" by auto
  then show ?thesis by (simp add: findBestQuadrilateral_def)
qed

section \<open>The flood fill returns\<close>

lemma idx_in_frame: "x < w \<Longrightarrow> y < h \<Longrightarrow> y * w + x < w * (h::nat)"
proof -
  assume a: "x < w" "y < h"
  then have "y * w + x < Suc y * w" by simp
  also have "\<dots> \<le> h * w" using a(2) by (intro mult_le_mono1) simp
  finally show ?thesis by (simp add: mult.commute)
qed

lemma int_idx_in_frame:
  assumes "0 \<le> x" "x < int w" "0 \<le> y" "y < int h"
  shows "nat (y * int w + x) < w * h"
proof -
  from assms obtain x' y' where xy: "x = int x'" "y = int y'"
    using nonneg_int_cases by metis
  with assms have "x' < w" "y' < h" by simp_all
  then have "y' * w + x' < w * h" by (rule idx_in_frame)
  moreover have "y * int w + x = int (y' * w + x')" by (simp add: xy)
  ultimately show ?thesis by (simp only: nat_int)
qed

lemma traceContour_returns:
  "length visited = width * height \<Longrightarrow>
   \<exists>v c. traceContour edges width height stack visited contour = Some (v, c) \<and>
     length v = width * height"
proof (induction edges width height stack visited contour rule: traceContour.induct)
  case (1 edges width height visited contour)
  then show ?case by simp
next
  case (2 edges width height x y stack visited contour)
  show ?case
  proof (cases "x < 0 \<or> x \<ge> int width \<or> y < 0 \<or> y \<ge> int height")
    case True
    with "2.IH"(1) "2.prems" show ?thesis by simp
  next
    case False
    then have "nat (y * int width + x) < width * height"
      by (intro int_idx_in_frame) simp_all
    then have inr: "\<not> nat (y * int width + x) \<ge> length visited" using "2.prems" by simp
    show ?thesis
    proof (cases "visited ! nat (y * int width + x) \<or> edges ! nat (y * int width + x) = 0")
      case True
      with "2.IH"(2) [OF False refl inr True] "2.prems" False inr show ?thesis
        by (simp add: Let_def)
    next
      case F2: False
      have "length (visited[nat (y * int width + x) := True]) = width * height"
        using "2.prems" by simp
      from "2.IH"(3) [OF False refl inr F2 this] False inr F2 show ?thesis
        by (simp add: Let_def)
    qed
  qed
qed

lemma seedContour_returns:
  assumes "\<exists>v cs. state = Some (v, cs) \<and> length v = width * height"
  shows "\<exists>v cs. seedContour edges width height x y state = Some (v, cs) \<and> length v = width * height"
proof -
  from assms obtain v cs where s: "state = Some (v, cs)" and l: "length v = width * height" by blast
  from traceContour_returns [OF l] obtain v' c
    where t: "traceContour edges width height [(int x, int y)] v [] = Some (v', c)"
      and l': "length v' = width * height" by blast
  show ?thesis by (simp add: seedContour_def s l l' t Let_def del: traceContour.simps)
qed

lemma seedRow_returns:
  assumes "\<exists>v cs. state = Some (v, cs) \<and> length v = width * height"
  shows "\<exists>v cs. fold (\<lambda>x. seedContour edges width height x y) xs state = Some (v, cs) \<and>
           length v = width * height"
  using assms
proof (induction xs arbitrary: state)
  case Nil
  then show ?case by simp
next
  case (Cons x xs)
  from seedContour_returns [OF Cons.prems] have
    "\<exists>v cs. seedContour edges width height x y state = Some (v, cs) \<and> length v = width * height" .
  from Cons.IH [OF this] show ?case by simp
qed

lemma seedRows_returns:
  assumes "\<exists>v cs. state = Some (v, cs) \<and> length v = width * height"
  shows "\<exists>v cs. fold (\<lambda>y. fold (\<lambda>x. seedContour edges width height x y) xs) ys state = Some (v, cs) \<and>
           length v = width * height"
  using assms
proof (induction ys arbitrary: state)
  case Nil
  then show ?case by simp
next
  case (Cons y ys)
  from seedRow_returns [OF Cons.prems] have
    "\<exists>v cs. fold (\<lambda>x. seedContour edges width height x y) xs state = Some (v, cs) \<and>
       length v = width * height" .
  from Cons.IH [OF this] show ?case by simp
qed

lemma findContours_returns:
  assumes "length edges = width * height"
  shows "\<exists>contours. findContours edges width height = Some contours"
proof -
  have "\<exists>v cs. Some (replicate (length edges) False, [] :: point list list) = Some (v, cs) \<and>
          length v = width * height"
    using assms by simp
  from seedRows_returns [OF this, of edges "[0..<width]" "[0..<height]"]
  show ?thesis by (auto simp: findContours_def)
qed

section \<open>The pipeline returns\<close>

lemma forInterior_invariant:
  assumes "\<And>x y s. P s \<Longrightarrow> P (body x y s)" and "P s"
  shows "P (forInterior width height body s)"
  unfolding forInterior_def
  by (rule fold_invariant [where Q = "\<lambda>_. True"], simp, rule assms(2),
      rule fold_invariant [where Q = "\<lambda>_. True"], simp, assumption, rule assms(1))

lemma length_toGrayscale:
  "length (toGrayscale imgData) = img_width imgData * img_height imgData"
  unfolding toGrayscale_def
  by (rule fold_invariant [where Q = "\<lambda>_. True"]) simp_all

lemma length_gaussianBlur: "length (gaussianBlur d width height) = length d"
  unfolding gaussianBlur_def
  by (rule forInterior_invariant) simp_all

lemma length_sobelEdgeDetection:
  "length (fst (sobelEdgeDetection d width height)) = length d \<and>
   length (snd (sobelEdgeDetection d width height)) = length d"
  unfolding sobelEdgeDetection_def
  by (rule forInterior_invariant) (auto simp: Let_def split: prod.splits)

lemma length_nonMaxSuppression:
  "length (nonMaxSuppression magnitude direction width height) = length magnitude"
  unfolding nonMaxSuppression_def
  by (rule forInterior_invariant) (auto simp: Let_def split: prod.splits)

lemma length_applyThresholds: "length (applyThresholds edges) = length edges"
  unfolding applyThresholds_def Let_def
  by (rule fold_invariant [where Q = "\<lambda>_. True"]) simp_all

lemma length_trackEdge: "length (trackEdge width x y result) = length result"
  by (simp add: trackEdge_def Let_def)

lemma length_doubleThreshold: "length (doubleThreshold edges width height) = length edges"
  unfolding doubleThreshold_def
  by (rule forInterior_invariant) (simp_all add: length_trackEdge length_applyThresholds)

lemma length_detectEdges:
  "length (detectEdges imgData) = img_width imgData * img_height imgData"
  using length_sobelEdgeDetection
    [of "gaussianBlur (toGrayscale imgData) (img_width imgData) (img_height imgData)"
        "img_width imgData" "img_height imgData"]
  by (auto simp: detectEdges_def Let_def length_doubleThreshold length_nonMaxSuppression
      length_gaussianBlur length_toGrayscale split: prod.splits)

section \<open>Corner ordering: idempotence\<close>

lemma orderCorners_sorted4:
  assumes "px s0 + py s0 \<le> px s1 + py s1" "px s1 + py s1 \<le> px s2 + py s2"
    and "px s2 + py s2 \<le> px s3 + py s3"
    and "orderCorners [s0, s1, s2, s3] = Some o'"
  shows "orderCorners o' = Some o' \<longleftrightarrow>
         (px (o' ! 3) + py (o' ! 3) < px (o' ! 2) + py (o' ! 2) \<or> o' ! 3 = o' ! 2)"
  using assms
  by (auto simp: orderCorners_def Let_def split: if_splits)

lemma orderCorners_sort_key:
  "orderCorners (sort_key (\<lambda>a. px a + py a) q) = orderCorners q"
  by (simp add: orderCorners_def sort_key_id_if_sorted)

lemma list4: "length q = 4 \<Longrightarrow> \<exists>a b c d. q = [a, b, c, d]"
  by (auto simp: eval_nat_numeral length_Suc_conv)

text \<open>
  C8, as the claim states it, fails: the corners \<open>(0,0), (2,1), (0,4), (4,0)\<close> are
  ordered to \<open>(0,0), (2,1), (4,0), (0,4)\<close>, where bottom-left and bottom-right
  have the same \<open>x + y\<close>; ordering that list again makes \<open>(0,4)\<close> the bottom-right
  corner.
\<close>

theorem orderCorners_not_idempotent:
  "Option.bind
     (orderCorners [\<lparr>px = 0, py = 0\<rparr>, \<lparr>px = 2, py = 1\<rparr>, \<lparr>px = 0, py = 4\<rparr>, \<lparr>px = 4, py = 0\<rparr>])
     orderCorners
   \<noteq> orderCorners [\<lparr>px = 0, py = 0\<rparr>, \<lparr>px = 2, py = 1\<rparr>, \<lparr>px = 0, py = 4\<rparr>, \<lparr>px = 4, py = 0\<rparr>]"
  by (simp add: orderCorners_def Let_def)

text \<open>
  C8, amended: for a list \<open>q\<close> of exactly four points, ordering the output
  \<open>[TL, TR, BR, BL]\<close> of \<^verbatim>\<open>orderCorners\<close> again gives the same four corners in
  the same order exactly when the bottom-left corner has a smaller \<open>x + y\<close> than
  the bottom-right corner, or is the same point; so it does whenever the
  largest \<open>x + y\<close> belongs to one corner only.
\<close>

theorem orderCorners_idempotent_iff:
  assumes "length q = 4" and "orderCorners q = Some o'"
  shows "orderCorners o' = Some o' \<longleftrightarrow>
         (px (o' ! 3) + py (o' ! 3) < px (o' ! 2) + py (o' ! 2) \<or> o' ! 3 = o' ! 2)"
proof -
  let ?f = "\<lambda>a. px a + py a"
  have "length (sort_key ?f q) = 4" using assms(1) by simp
  then obtain s0 s1 s2 s3 where s: "sort_key ?f q = [s0, s1, s2, s3]"
    using list4 by blast
  have "sorted (map ?f (sort_key ?f q))" by (rule sorted_sort_key)
  then have le: "?f s0 \<le> ?f s1" "?f s1 \<le> ?f s2" "?f s2 \<le> ?f s3"
    unfolding s by simp_all
  have "orderCorners [s0, s1, s2, s3] = Some o'"
    using assms(2) orderCorners_sort_key [of q] by (simp add: s)
  with le show ?thesis by (rule orderCorners_sorted4)
qed

text \<open>The unit square, given in the order top-right, bottom-left, bottom-right, top-left.\<close>

theorem orderCorners_idempotent_witness:
  "orderCorners [\<lparr>px = 1, py = 0\<rparr>, \<lparr>px = 0, py = 1\<rparr>, \<lparr>px = 1, py = 1\<rparr>, \<lparr>px = 0, py = 0\<rparr>]
     = Some [\<lparr>px = 0, py = 0\<rparr>, \<lparr>px = 1, py = 0\<rparr>, \<lparr>px = 1, py = 1\<rparr>, \<lparr>px = 0, py = 1\<rparr>] \<and>
   orderCorners [\<lparr>px = 0, py = 0\<rparr>, \<lparr>px = 1, py = 0\<rparr>, \<lparr>px = 1, py = 1\<rparr>, \<lparr>px = 0, py = 1\<rparr>]
     = Some [\<lparr>px = 0, py = 0\<rparr>, \<lparr>px = 1, py = 0\<rparr>, \<lparr>px = 1, py = 1\<rparr>, \<lparr>px = 0, py = 1\<rparr>]"
proof -
  let ?q = "[\<lparr>px = 1, py = 0\<rparr>, \<lparr>px = 0, py = 1\<rparr>, \<lparr>px = 1, py = 1\<rparr>, \<lparr>px = 0, py = (0::real)\<rparr>]"
  let ?o = "[\<lparr>px = 0, py = 0\<rparr>, \<lparr>px = 1, py = 0\<rparr>, \<lparr>px = 1, py = 1\<rparr>, \<lparr>px = 0, py = (1::real)\<rparr>]"
  have h1: "length ?q = 4" by simp
  have h2: "orderCorners ?q = Some ?o" by (simp add: orderCorners_def Let_def)
  have h3: "px (?o ! 3) + py (?o ! 3) < px (?o ! 2) + py (?o ! 2) \<or> ?o ! 3 = ?o ! 2" by simp
  have "orderCorners ?o = Some ?o"
    using orderCorners_idempotent_iff [OF h1 h2] h3 by (rule iffD2)
  with h2 show ?thesis by (rule conjI)
qed

section \<open>A black raster of 3 by 3 pixels\<close>

lemma interior3: "forInterior 3 3 body s = body 1 1 s"
  by (simp add: forInterior_def upt_rec)

lemma replicate9: "replicate 9 x = [x, x, x, x, x, x, x, x, x]"
  by (simp add: numeral_eq_Suc)

lemma toGrayscale_black3:
  "toGrayscale \<lparr>img_width = 3, img_height = 3, img_data = replicate 36 0\<rparr> = replicate 9 0"
  by code_simp

lemma gaussianBlur_black3: "gaussianBlur (replicate 9 0) 3 3 = replicate 9 0"
  by code_simp

lemma sobelEdgeDetection_black3:
  "sobelEdgeDetection (replicate 9 0) 3 3 = (replicate 9 0, replicate 9 0)"
  unfolding interior3 sobelEdgeDetection_def
  by (simp add: gradient_def nbIdx_def sobelX_def sobelY_def atan2_def replicate9)

lemma nonMaxSuppression_black3:
  "nonMaxSuppression (replicate 9 0) (replicate 9 0) 3 3 = replicate 9 0"
  unfolding interior3 nonMaxSuppression_def
  by (simp add: replicate9)

lemma doubleThreshold_black3: "doubleThreshold (replicate 9 0) 3 3 = replicate 9 255"
  by code_simp

lemma findContours_black3: "findContours (replicate 9 255) 3 3 = Some []"
  by code_simp

lemma detectEdges_black3:
  "detectEdges \<lparr>img_width = 3, img_height = 3, img_data = replicate 36 0\<rparr> = replicate 9 255"
  by (simp add: detectEdges_def toGrayscale_black3 gaussianBlur_black3
      sobelEdgeDetection_black3 nonMaxSuppression_black3 doubleThreshold_black3)

lemma fallbackQuad_400_300:
  "fallbackQuad 400 300 =
     [\<lparr>px = 15, py = 15\<rparr>, \<lparr>px = 385, py = 15\<rparr>, \<lparr>px = 385, py = 285\<rparr>, \<lparr>px = 15, py = 285\<rparr>]"
  by (simp add: fallbackQuad_def Let_def)

lemma fallbackQuad_3_3:
  "fallbackQuad 3 3 =
     [\<lparr>px = 0.15, py = 0.15\<rparr>, \<lparr>px = 2.85, py = 0.15\<rparr>, \<lparr>px = 2.85, py = 2.85\<rparr>,
      \<lparr>px = 0.15, py = 2.85\<rparr>]"
  by (simp add: fallbackQuad_def Let_def)

section \<open>The convex hull and the array it is given\<close>

lemma lowestIndex_fold:
  "1 \<le> m \<Longrightarrow>
   (let r = fold (\<lambda>i lowest.
             if py (points ! i) < py (points ! lowest) \<or>
                (py (points ! i) = py (points ! lowest) \<and> px (points ! i) < px (points ! lowest))
             then i else lowest) [1..<m] 0
    in r < m \<and>
       (\<forall>j<m. py (points ! r) < py (points ! j) \<or>
                (py (points ! r) = py (points ! j) \<and> px (points ! r) \<le> px (points ! j))))"
proof (induction m)
  case 0
  then show ?case by simp
next
  case (Suc m)
  show ?case
  proof (cases "m = 0")
    case True
    then show ?thesis by simp
  next
    case False
    then have "1 \<le> m" by simp
    from Suc.IH [OF this] show ?thesis
      using \<open>1 \<le> m\<close> by (auto simp: Let_def less_Suc_eq)
  qed
qed

lemma lowestIndex_lowest:
  assumes "points \<noteq> []"
  shows "lowestIndex points < length points"
    and "\<forall>p \<in> set points.
           py (points ! lowestIndex points) < py p \<or>
           (py (points ! lowestIndex points) = py p \<and> px (points ! lowestIndex points) \<le> px p)"
proof -
  from assms have "1 \<le> length points" by (cases points) simp_all
  from lowestIndex_fold [OF this, of points]
  have *: "lowestIndex points < length points \<and>
       (\<forall>j<length points. py (points ! lowestIndex points) < py (points ! j) \<or>
                (py (points ! lowestIndex points) = py (points ! j) \<and>
                 px (points ! lowestIndex points) \<le> px (points ! j)))"
    by (simp add: lowestIndex_def Let_def)
  then show "lowestIndex points < length points" by simp
  from * show "\<forall>p \<in> set points.
           py (points ! lowestIndex points) < py p \<or>
           (py (points ! lowestIndex points) = py p \<and> px (points ! lowestIndex points) \<le> px p)"
    by (auto simp: in_set_conv_nth)
qed

lemma mset_swapElems:
  "i < length xs \<Longrightarrow> j < length xs \<Longrightarrow> mset (swapElems xs i j) = mset xs"
  unfolding swapElems_def by (simp add: mset_swap)

text \<open>
  C10: a list of fewer than three points is returned as it is, and the array is
  not touched.  With three points or more, the array is left with its entries
  at 0 and at the index of the lowest point exchanged (lowest \<open>y\<close>, then lowest
  \<open>x\<close>) and nothing else moved: the sort works on a copy of the rest.  The
  points of the array are the same multiset as before.
\<close>

theorem convexHull_swaps_lowest_in_place:
  "(length points < 3 \<longrightarrow> convexHull points = (points, points)) \<and>
   (3 \<le> length points \<longrightarrow>
      lowestIndex points < length points \<and>
      (\<forall>p \<in> set points.
         py (points ! lowestIndex points) < py p \<or>
         (py (points ! lowestIndex points) = py p \<and> px (points ! lowestIndex points) \<le> px p)) \<and>
      fst (convexHull points) =
        (points[0 := points ! lowestIndex points])[lowestIndex points := points ! 0] \<and>
      mset (fst (convexHull points)) = mset points)"
proof (intro conjI impI)
  assume "length points < 3"
  then show "convexHull points = (points, points)" by (simp add: convexHull_def)
next
  assume l: "3 \<le> length points"
  then have ne: "points \<noteq> []" by auto
  show "lowestIndex points < length points" by (rule lowestIndex_lowest(1) [OF ne])
  show "\<forall>p \<in> set points.
         py (points ! lowestIndex points) < py p \<or>
         (py (points ! lowestIndex points) = py p \<and> px (points ! lowestIndex points) \<le> px p)"
    by (rule lowestIndex_lowest(2) [OF ne])
  from l have f: "fst (convexHull points) = swapElems points 0 (lowestIndex points)"
    by (simp add: convexHull_def Let_def)
  then show "fst (convexHull points) =
        (points[0 := points ! lowestIndex points])[lowestIndex points := points ! 0]"
    by (simp add: swapElems_def)
  have "0 < length points" using l by linarith
  then show "mset (fst (convexHull points)) = mset points"
    unfolding f using lowestIndex_lowest(1) [OF ne] by (rule mset_swapElems)
qed

lemma lowestIndex_example:
  "lowestIndex [\<lparr>px = 1, py = 1\<rparr>, \<lparr>px = 2, py = 0\<rparr>, \<lparr>px = 0, py = 0\<rparr>] = 2"
  by (simp add: lowestIndex_def upt_rec)

text \<open>
  Three points with the lowest one last: the array is changed.  Two points: it
  is not.
\<close>

theorem convexHull_swaps_lowest_in_place_witness:
  "fst (convexHull [\<lparr>px = 1, py = 1\<rparr>, \<lparr>px = 2, py = 0\<rparr>, \<lparr>px = 0, py = 0\<rparr>]) =
     [\<lparr>px = 0, py = 0\<rparr>, \<lparr>px = 2, py = 0\<rparr>, \<lparr>px = 1, py = 1\<rparr>] \<and>
   convexHull [\<lparr>px = 1, py = 1\<rparr>, \<lparr>px = 0, py = 0\<rparr>] =
     ([\<lparr>px = 1, py = 1\<rparr>, \<lparr>px = 0, py = 0\<rparr>], [\<lparr>px = 1, py = 1\<rparr>, \<lparr>px = 0, py = 0\<rparr>])"
proof -
  let ?p3 = "[\<lparr>px = 1, py = 1\<rparr>, \<lparr>px = 2, py = 0\<rparr>, \<lparr>px = 0, py = (0::real)\<rparr>]"
  let ?p2 = "[\<lparr>px = 1, py = 1\<rparr>, \<lparr>px = 0, py = (0::real)\<rparr>]"
  have 3: "3 \<le> length ?p3" by simp
  have 2: "length ?p2 < 3" by simp
  from convexHull_swaps_lowest_in_place [of ?p3] 3
  have "fst (convexHull ?p3) = (?p3[0 := ?p3 ! lowestIndex ?p3])[lowestIndex ?p3 := ?p3 ! 0]"
    by blast
  then have a: "fst (convexHull ?p3) = [\<lparr>px = 0, py = 0\<rparr>, \<lparr>px = 2, py = 0\<rparr>, \<lparr>px = 1, py = 1\<rparr>]"
    by (simp add: lowestIndex_example)
  from convexHull_swaps_lowest_in_place [of ?p2] 2
  have b: "convexHull ?p2 = (?p2, ?p2)" by blast
  from a b show ?thesis by (rule conjI)
qed

section \<open>The corners of a chosen quadrilateral are pixels\<close>

lemma traceContour_grid:
  "\<forall>p \<in> set contour. gridPoint p \<Longrightarrow>
   traceContour edges width height stack visited contour = Some (v, c) \<Longrightarrow>
   \<forall>p \<in> set c. gridPoint p"
proof (induction edges width height stack visited contour rule: traceContour.induct)
  case (1 edges width height visited contour)
  then show ?case by simp
next
  case (2 edges width height x y stack visited contour)
  show ?case
  proof (cases "x < 0 \<or> x \<ge> int width \<or> y < 0 \<or> y \<ge> int height")
    case True
    with "2.prems"(2) have "traceContour edges width height stack visited contour = Some (v, c)"
      by simp
    from "2.IH"(1) [OF True "2.prems"(1) this] show ?thesis .
  next
    case False
    show ?thesis
    proof (cases "nat (y * int width + x) \<ge> length visited")
      case True
      with "2.prems"(2) False show ?thesis by (simp add: Let_def)
    next
      case inr: False
      show ?thesis
      proof (cases "visited ! nat (y * int width + x) \<or> edges ! nat (y * int width + x) = 0")
        case True
        with "2.prems"(2) False inr
        have "traceContour edges width height stack visited contour = Some (v, c)"
          by (simp add: Let_def)
        from "2.IH"(2) [OF False refl inr True "2.prems"(1) this] show ?thesis .
      next
        case F2: False
        have g: "\<forall>p \<in> set (contour @ [\<lparr>px = real_of_int x, py = real_of_int y\<rparr>]). gridPoint p"
          using "2.prems"(1) by (simp add: gridPoint_def)
        from "2.prems"(2) False inr F2
        have "traceContour edges width height
               (rev (map (\<lambda>(dx, dy). (x + dx, y + dy)) directions) @ stack)
               (visited[nat (y * int width + x) := True])
               (contour @ [\<lparr>px = real_of_int x, py = real_of_int y\<rparr>]) = Some (v, c)"
          by (simp add: Let_def)
        from "2.IH"(3) [OF False refl inr F2 g this] show ?thesis .
      qed
    qed
  qed
qed

lemma seedContour_grid:
  assumes "\<forall>v cs. state = Some (v, cs) \<longrightarrow> (\<forall>c \<in> set cs. \<forall>p \<in> set c. gridPoint p)"
  shows "\<forall>v cs. seedContour edges width height x y state = Some (v, cs) \<longrightarrow>
           (\<forall>c \<in> set cs. \<forall>p \<in> set c. gridPoint p)"
proof (cases state)
  case None
  then show ?thesis by (simp add: seedContour_def)
next
  case (Some s)
  obtain v0 cs0 where s: "s = (v0, cs0)" by (cases s)
  from assms Some s have g0: "\<forall>c \<in> set cs0. \<forall>p \<in> set c. gridPoint p" by simp
  show ?thesis
  proof (cases "traceContour edges width height [(int x, int y)] v0 []")
    case None
    with Some s g0 show ?thesis by (auto simp: seedContour_def Let_def simp del: traceContour.simps)
  next
    case t: (Some t)
    obtain v' contour where t': "t = (v', contour)" by (cases t)
    have "\<forall>p \<in> set contour. gridPoint p"
      by (rule traceContour_grid [OF _ t [unfolded t']]) simp
    with Some s g0 t t' show ?thesis
      by (auto simp: seedContour_def Let_def simp del: traceContour.simps)
  qed
qed

lemma seedRow_grid:
  assumes "\<forall>v cs. state = Some (v, cs) \<longrightarrow> (\<forall>c \<in> set cs. \<forall>p \<in> set c. gridPoint p)"
  shows "\<forall>v cs. fold (\<lambda>x. seedContour edges width height x y) xs state = Some (v, cs) \<longrightarrow>
           (\<forall>c \<in> set cs. \<forall>p \<in> set c. gridPoint p)"
  using assms
proof (induction xs arbitrary: state)
  case Nil
  then show ?case by simp
next
  case (Cons x xs)
  from Cons.IH [OF seedContour_grid [OF Cons.prems]] show ?case by simp
qed

lemma seedRows_grid:
  assumes "\<forall>v cs. state = Some (v, cs) \<longrightarrow> (\<forall>c \<in> set cs. \<forall>p \<in> set c. gridPoint p)"
  shows "\<forall>v cs. fold (\<lambda>y. fold (\<lambda>x. seedContour edges width height x y) xs) ys state = Some (v, cs) \<longrightarrow>
           (\<forall>c \<in> set cs. \<forall>p \<in> set c. gridPoint p)"
  using assms
proof (induction ys arbitrary: state)
  case Nil
  then show ?case by simp
next
  case (Cons y ys)
  from Cons.IH [OF seedRow_grid [OF Cons.prems]] show ?case by simp
qed

lemma findContours_grid:
  assumes "findContours edges width height = Some contours"
  shows "\<forall>c \<in> set contours. \<forall>p \<in> set c. gridPoint p"
proof -
  have "\<forall>v cs. Some (replicate (length edges) False, [] :: point list list) = Some (v, cs) \<longrightarrow>
          (\<forall>c \<in> set cs. \<forall>p \<in> set c. gridPoint p)"
    by simp
  from seedRows_grid [OF this, where edges = edges and width = width and height = height
      and xs = "[0..<width]" and ys = "[0..<height]"] assms
  show ?thesis by (auto simp: findContours_def)
qed

lemma popHull_subset: "set (popHull hull' point) \<subseteq> set hull'"
proof (induction hull' point rule: popHull.induct)
  case (1 hull' point)
  let ?cross = "(px (hull' ! (length hull' - 1)) - px (hull' ! (length hull' - 2))) *
                  (py point - py (hull' ! (length hull' - 2))) -
                (py (hull' ! (length hull' - 1)) - py (hull' ! (length hull' - 2))) *
                  (px point - px (hull' ! (length hull' - 2)))"
  show ?case
  proof (cases "length hull' > 1 \<and> ?cross \<le> 0")
    case True
    then have "popHull hull' point = popHull (butlast hull') point"
      by (subst popHull.simps) (simp add: Let_def)
    moreover from "1.IH" [OF _ refl refl refl] True
    have "set (popHull (butlast hull') point) \<subseteq> set (butlast hull')" by simp
    moreover have "set (butlast hull') \<subseteq> set hull'" by (auto dest: in_set_butlastD)
    ultimately show ?thesis by simp
  next
    case False
    then have "popHull hull' point = hull'"
      by (subst popHull.simps) (auto simp: Let_def)
    then show ?thesis by simp
  qed
qed

lemma scan_subset:
  "set h0 \<subseteq> S \<Longrightarrow> set xs \<subseteq> S \<Longrightarrow>
   set (fold (\<lambda>point hull'. popHull hull' point @ [point]) xs h0) \<subseteq> S"
proof (induction xs arbitrary: h0)
  case Nil
  then show ?case by simp
next
  case (Cons x xs)
  have "set (popHull h0 x @ [x]) \<subseteq> S"
    using popHull_subset [of h0 x] Cons.prems by auto
  from Cons.IH [OF this] Cons.prems(2) show ?case by simp
qed

lemma convexHull_subset: "set (snd (convexHull points)) \<subseteq> set points"
proof (cases "length points < 3")
  case True
  then show ?thesis by (simp add: convexHull_def)
next
  case False
  then have ne: "points \<noteq> []" by auto
  define points' where "points' = swapElems points 0 (lowestIndex points)"
  have "0 < length points" using ne by simp
  then have "mset points' = mset points"
    unfolding points'_def using lowestIndex_lowest(1) [OF ne] by (rule mset_swapElems)
  then have s: "set points' = set points" by (rule mset_eq_setD)
  then have ne': "points' \<noteq> []" using ne by auto
  have p: "set [points' ! 0] \<subseteq> set points" using ne' s by (cases points') auto
  have d: "set (sort_key (\<lambda>a. atan2 (py a - py (points' ! 0)) (px a - px (points' ! 0))) (drop 1 points'))
             \<subseteq> set points"
    using s by (auto dest: in_set_dropD)
  from scan_subset [OF p d] False show ?thesis
    by (simp add: convexHull_def Let_def points'_def)
qed

lemma douglasPeucker_indices:
  "start < end' \<Longrightarrow> end' \<le> n \<Longrightarrow> \<forall>i \<in> set result. i < n \<Longrightarrow>
   douglasPeucker hull' thr start end' result = Some r \<Longrightarrow> \<forall>i \<in> set r. i < n"
proof (induction hull' thr start end' result arbitrary: r rule: douglasPeucker.induct)
  case (1 hull' thr start end' result)
  let ?d = "fst (farthest hull' start end')" and ?m = "snd (farthest hull' start end')"
  show ?case
  proof (cases "?d > thr")
    case False
    with "1.prems"(4) have "r = (if start \<in> set result then result else result @ [start])"
      by (subst (asm) douglasPeucker.simps) (simp add: Let_def)
    with "1.prems"(1-3) show ?thesis by auto
  next
    case True
    show ?thesis
    proof (cases "start < ?m \<and> ?m < end'")
      case F: False
      with "1.prems"(4) True show ?thesis
        by (subst (asm) douglasPeucker.simps) (simp add: Let_def)
    next
      case lt: True
      from "1.prems"(4) True lt obtain r1
        where r1: "douglasPeucker hull' thr start ?m result = Some r1"
          and r2: "douglasPeucker hull' thr ?m end' r1 = Some r"
        by (subst (asm) douglasPeucker.simps) (auto simp: Let_def split: option.splits)
      have m: "?m \<le> n" using lt "1.prems"(2) by simp
      from "1.IH"(1) [OF refl refl True lt conjunct1 [OF lt] m "1.prems"(3) r1]
      have i1: "\<forall>i \<in> set r1. i < n" .
      from "1.IH"(2) [OF refl refl True lt r1 conjunct2 [OF lt] "1.prems"(2) i1 r2]
      show ?thesis .
    qed
  qed
qed

lemma approximatePolygon_subset:
  assumes "approximatePolygon hull' epsilon = Inr polygon"
  shows "set polygon \<subseteq> set hull'"
proof (cases "length hull' < 4")
  case True
  with assms show ?thesis by (simp add: approximatePolygon_def)
next
  case False
  with assms obtain r
    where r: "douglasPeucker hull' (epsilon * totalLength hull') 0 (length hull') [] = Some r"
      and p: "polygon = map (\<lambda>i. hull' ! i) r"
    by (auto simp: approximatePolygon_def split: option.splits)
  have "0 < length hull'" using False by (cases hull') simp_all
  from douglasPeucker_indices [OF this le_refl _ r] have "\<forall>i \<in> set r. i < length hull'" by simp
  then show ?thesis unfolding p by auto
qed

lemma scoreContour_grid:
  assumes c: "\<forall>p \<in> set contour. gridPoint p"
    and b: "length (fst best) = 4 \<longrightarrow> (\<forall>p \<in> set (fst best). gridPoint p) \<and> quadArea (fst best) \<noteq> 0"
    and s: "scoreContour width height best contour = Inr best'"
  shows "length (fst best') = 4 \<longrightarrow> (\<forall>p \<in> set (fst best'). gridPoint p) \<and> quadArea (fst best') \<noteq> 0"
proof -
  obtain polygon where p: "approximatePolygon (snd (convexHull contour)) 0.02 = Inr polygon"
    using approximatePolygon_returns by blast
  define r where "r = quadArea polygon / (width * height)"
  have sc: "scoreContour width height best contour =
      (if length polygon = 4 \<and> r > 0.1 \<and> r < 0.95 \<and> r * 100 > snd best
       then Inr (polygon, r * 100) else Inr best)"
    unfolding scoreContour_def Let_def p r_def by simp
  show ?thesis
  proof (cases "length polygon = 4 \<and> r > 0.1 \<and> r < 0.95 \<and> r * 100 > snd best")
    case True
    have "scoreContour width height best contour = Inr (polygon, r * 100)"
      unfolding sc using True by (rule if_P)
    with s have b': "fst best' = polygon" by auto
    from approximatePolygon_subset [OF p] convexHull_subset [of contour] c
    have g: "\<forall>p \<in> set polygon. gridPoint p" by blast
    from True have "r \<noteq> 0" by simp
    then have "quadArea polygon \<noteq> 0" unfolding r_def by auto
    with g show ?thesis unfolding b' by simp
  next
    case False
    have "scoreContour width height best contour = Inr best"
      unfolding sc using False by (rule if_not_P)
    with s b show ?thesis by simp
  qed
qed

lemma scanContours_grid:
  "\<forall>c \<in> set contours. \<forall>p \<in> set c. gridPoint p \<Longrightarrow>
   length (fst best) = 4 \<longrightarrow> (\<forall>p \<in> set (fst best). gridPoint p) \<and> quadArea (fst best) \<noteq> 0 \<Longrightarrow>
   scanContours width height contours best = Inr best' \<Longrightarrow>
   length (fst best') = 4 \<longrightarrow> (\<forall>p \<in> set (fst best'). gridPoint p) \<and> quadArea (fst best') \<noteq> 0"
proof (induction contours arbitrary: best)
  case Nil
  then show ?case by simp
next
  case (Cons c contours)
  from Cons.prems(3) obtain b1 where b1: "scoreContour width height best c = Inr b1"
    and b2: "scanContours width height contours b1 = Inr best'"
    by (auto split: sum.splits)
  have "\<forall>p \<in> set c. gridPoint p" using Cons.prems(1) by simp
  from scoreContour_grid [OF this Cons.prems(2) b1]
  have 1: "length (fst b1) = 4 \<longrightarrow> (\<forall>p \<in> set (fst b1). gridPoint p) \<and> quadArea (fst b1) \<noteq> 0" .
  have 2: "\<forall>c \<in> set contours. \<forall>p \<in> set c. gridPoint p" using Cons.prems(1) by simp
  from Cons.IH [OF 2 1 b2] show ?case .
qed

lemma orderCorners_set:
  assumes "length q = 4" and "orderCorners q = Some cs"
  shows "set cs = set q" and "length cs = 4"
proof -
  define sorted where "sorted = sort_key (\<lambda>a. px a + py a) q"
  have "length sorted = 4" using assms(1) by (simp add: sorted_def)
  from list4 [OF this] obtain s0 s1 s2 s3 where s: "sorted = [s0, s1, s2, s3]" by blast
  have "set sorted = set q" by (simp add: sorted_def)
  then have q: "set q = {s0, s1, s2, s3}" unfolding s by auto
  from assms(2) have "cs = [s0, s1, s3, s2] \<or> cs = [s0, s2, s3, s1]"
    unfolding orderCorners_def sorted_def [symmetric] s
    by (auto simp: Let_def split: if_splits)
  then show "set cs = set q" "length cs = 4" unfolding q by auto
qed

lemma quadArea_two_points:
  assumes "length q = 4" and "set q \<subseteq> {P, Q}"
  shows "quadArea q = 0"
proof -
  from list4 [OF assms(1)] obtain a b c d where q: "q = [a, b, c, d]" by blast
  from assms(2) have "a = P \<or> a = Q" "b = P \<or> b = Q" "c = P \<or> c = Q" "d = P \<or> d = Q"
    unfolding q by auto
  then show ?thesis unfolding q by (auto simp: quadArea_def)
qed

lemma abs_le_hypot: "\<bar>a\<bar> \<le> hypot a b" "\<bar>b\<bar> \<le> hypot a b"
proof -
  have "\<bar>a\<bar> = sqrt (a * a)" by simp
  also have "\<dots> \<le> sqrt (a * a + b * b)" by (rule real_sqrt_le_mono) simp
  finally show "\<bar>a\<bar> \<le> hypot a b" by (simp add: hypot_def)
  have "\<bar>b\<bar> = sqrt (b * b)" by simp
  also have "\<dots> \<le> sqrt (a * a + b * b)" by (rule real_sqrt_le_mono) simp
  finally show "\<bar>b\<bar> \<le> hypot a b" by (simp add: hypot_def)
qed

lemma small_int_zero:
  fixes a :: real
  assumes "a \<in> \<int>" and "\<bar>a\<bar> < 1 / 2"
  shows "a = 0"
proof -
  from assms(1) obtain k :: int where k: "a = of_int k" by (rule Ints_cases)
  from assms(2) have "\<bar>real_of_int k\<bar> < 1" unfolding k by simp
  then have "\<bar>k\<bar> < 1" by linarith
  then show ?thesis unfolding k by simp
qed

lemma grid_close:
  assumes "gridPoint a" and "gridPoint b" and "hypot (px b - px a) (py b - py a) < 1 / 2"
  shows "a = b"
proof -
  have ix: "px b - px a \<in> \<int>" and iy: "py b - py a \<in> \<int>"
    using assms(1,2) by (simp_all add: gridPoint_def)
  have ax: "\<bar>px b - px a\<bar> < 1 / 2"
    using abs_le_hypot(1) [of "px b - px a" "py b - py a"] assms(3) by linarith
  have ay: "\<bar>py b - py a\<bar> < 1 / 2"
    using abs_le_hypot(2) [of "py b - py a" "px b - px a"] assms(3) by linarith
  from small_int_zero [OF ix ax] small_int_zero [OF iy ay] show ?thesis by simp
qed

lemma js_round_positive: "1 / 2 \<le> v \<Longrightarrow> 0 < nat (js_round v)"
proof -
  assume "1 / 2 \<le> v"
  then have "1 \<le> v + 1 / 2" by simp
  then have "1 \<le> \<lfloor>v + 1 / 2\<rfloor>" by (simp add: le_floor_iff)
  then show ?thesis by (simp add: js_round_def)
qed

lemma js_round_zero: "nat (js_round v) = 0 \<Longrightarrow> v < 1 / 2"
  using js_round_positive [of v] by (cases "1 / 2 \<le> v") simp_all

text \<open>
  Four pixels that are the corners, in some order, of a quadrilateral with an
  area: the output has at least one row and one column.
\<close>

lemma outputSize_grid:
  assumes l: "length cs = 4" and g: "\<forall>p \<in> set cs. gridPoint p"
    and q: "length q = 4" "set q = set cs" "quadArea q \<noteq> 0"
  shows "0 < fst (outputSize cs)" and "0 < snd (outputSize cs)"
proof -
  from list4 [OF l] obtain a b c d where cs: "cs = [a, b, c, d]" by blast
  from g have ga: "gridPoint a" and gb: "gridPoint b" and gc: "gridPoint c" and gd: "gridPoint d"
    unfolding cs by simp_all
  show "0 < fst (outputSize cs)"
  proof (rule ccontr)
    assume "\<not> 0 < fst (outputSize cs)"
    then have "nat (js_round (max (hypot (px b - px a) (py b - py a))
                                   (hypot (px c - px d) (py c - py d)))) = 0"
      by (simp add: outputSize_def cs Let_def)
    from js_round_zero [OF this]
    have "hypot (px b - px a) (py b - py a) < 1 / 2" "hypot (px c - px d) (py c - py d) < 1 / 2"
      by simp_all
    from grid_close [OF ga gb this(1)] grid_close [OF gd gc this(2)]
    have "set q \<subseteq> {a, c}" unfolding q(2) cs by auto
    from quadArea_two_points [OF q(1) this] q(3) show False by simp
  qed
  show "0 < snd (outputSize cs)"
  proof (rule ccontr)
    assume "\<not> 0 < snd (outputSize cs)"
    then have "nat (js_round (max (hypot (px d - px a) (py d - py a))
                                   (hypot (px c - px b) (py c - py b)))) = 0"
      by (simp add: outputSize_def cs Let_def)
    from js_round_zero [OF this]
    have "hypot (px d - px a) (py d - py a) < 1 / 2" "hypot (px c - px b) (py c - py b) < 1 / 2"
      by simp_all
    from grid_close [OF ga gd this(1)] grid_close [OF gb gc this(2)]
    have "set q \<subseteq> {a, b}" unfolding q(2) cs by auto
    from quadArea_two_points [OF q(1) this] q(3) show False by simp
  qed
qed

lemma hypot_zero: "hypot a 0 = \<bar>a\<bar>" "hypot 0 a = \<bar>a\<bar>"
  by (simp_all add: hypot_def)

lemma outputSize_fallbackQuad:
  assumes "1 \<le> width" and "1 \<le> height"
  shows "0 < fst (outputSize (fallbackQuad width height))"
    and "0 < snd (outputSize (fallbackQuad width height))"
proof -
  have "min width height \<le> width" "min width height \<le> height" by simp_all
  with assms have w: "1 / 2 \<le> \<bar>width - min width height / 10\<bar>"
    and h: "1 / 2 \<le> \<bar>height - min width height / 10\<bar>" by linarith+
  have "fst (outputSize (fallbackQuad width height)) =
      nat (js_round \<bar>width - min width height / 10\<bar>)"
    by (simp add: outputSize_def fallbackQuad_def Let_def hypot_zero)
  with js_round_positive [OF w] show "0 < fst (outputSize (fallbackQuad width height))" by simp
  have "snd (outputSize (fallbackQuad width height)) =
      nat (js_round \<bar>height - min width height / 10\<bar>)"
    by (simp add: outputSize_def fallbackQuad_def Let_def hypot_zero)
  with js_round_positive [OF h] show "0 < snd (outputSize (fallbackQuad width height))" by simp
qed

text \<open>
  The corners that \<^verbatim>\<open>findBestQuadrilateral\<close> returns for contours of pixels, on a
  raster with at least one pixel, give an output with at least one pixel.
\<close>

lemma findBestQuadrilateral_outputSize:
  assumes g: "\<forall>c \<in> set contours. \<forall>p \<in> set c. gridPoint p"
    and w: "1 \<le> width" and h: "1 \<le> height"
    and f: "findBestQuadrilateral contours width height = Inr (Some cs, conf)"
  shows "0 < fst (outputSize cs)" and "0 < snd (outputSize cs)"
proof -
  from scanContours_returns [of "([], 0)" width height contours] obtain bq bs
    where b: "scanContours width height contours ([], 0) = Inr (bq, bs)" by auto
  from scanContours_grid [OF g _ b]
  have i: "length bq = 4 \<longrightarrow> (\<forall>p \<in> set bq. gridPoint p) \<and> quadArea bq \<noteq> 0" by simp
  have "0 < fst (outputSize cs) \<and> 0 < snd (outputSize cs)"
  proof (cases "length bq = 4")
    case True
    with f b have o: "orderCorners bq = Some cs" by (simp add: findBestQuadrilateral_def)
    note s = orderCorners_set [OF True o]
    from i True s(1) have g': "\<forall>p \<in> set cs. gridPoint p" by simp
    from i True have a: "quadArea bq \<noteq> 0" by simp
    from outputSize_grid [OF s(2) g' True s(1) [symmetric] a] show ?thesis by simp
  next
    case False
    from w h have "0 < width" "0 < height" by simp_all
    from orderCorners_fallbackQuad [OF this] f b False
    have "cs = fallbackQuad width height" by (simp add: findBestQuadrilateral_def)
    with outputSize_fallbackQuad [OF w h] show ?thesis by simp
  qed
  then show "0 < fst (outputSize cs)" and "0 < snd (outputSize cs)" by simp_all
qed

section \<open>The pipeline returns on every raster with pixels\<close>

lemma perspectiveTransform_returns:
  "length cs = 4 \<Longrightarrow> 0 < outputWidth \<Longrightarrow> 0 < outputHeight \<Longrightarrow>
   0 < img_width sourceData \<Longrightarrow> 0 < img_height sourceData \<Longrightarrow>
   \<exists>out. perspectiveTransform sourceData cs outputWidth outputHeight = Inr out"
  by (simp add: perspectiveTransform_def computeHomography_def Let_def)

lemma processDocument_zero_area:
  "img_width imgData = 0 \<or> img_height imgData = 0 \<Longrightarrow>
   processDocument imgData = Inl IndexSizeError"
  by (auto simp: processDocument_def Let_def)

text \<open>The shape of every result of the pipeline.\<close>

lemma processDocument_returns:
  assumes "0 < img_width imgData" and "0 < img_height imgData"
  shows "\<exists>contours cs conf r.
     findContours (detectEdges imgData) (img_width imgData) (img_height imgData) = Some contours \<and>
     findBestQuadrilateral contours (real (img_width imgData)) (real (img_height imgData))
       = Inr (Some cs, conf) \<and>
     processDocument imgData = Inr r \<and> corners r = cs \<and> confidence r = conf \<and>
     warning r = (if conf < 50
                  then Some ''Low confidence detection. Document edges may not be accurate.''
                  else None)"
proof -
  from findContours_returns [OF length_detectEdges] obtain contours
    where c: "findContours (detectEdges imgData) (img_width imgData) (img_height imgData) = Some contours"
    by blast
  from findBestQuadrilateral_returns obtain cs conf
    where q: "findBestQuadrilateral contours (real (img_width imgData)) (real (img_height imgData))
                = Inr (Some cs, conf)"
      and l: "length cs = 4" by blast
  obtain ow oh where o: "outputSize cs = (ow, oh)" by (cases "outputSize cs")
  have w: "1 \<le> real (img_width imgData)" "1 \<le> real (img_height imgData)"
    using assms by simp_all
  from findBestQuadrilateral_outputSize [OF findContours_grid [OF c] w q] o
  have s: "0 < ow" "0 < oh" by simp_all
  from perspectiveTransform_returns [OF l s assms] obtain out
    where p: "perspectiveTransform imgData cs ow oh = Inr out" by blast
  show ?thesis
    using assms by (simp add: processDocument_def Let_def c q o p)
qed

lemma pipeline_fallback:
  assumes "0 < img_width imgData" "0 < img_height imgData"
    and "findContours (detectEdges imgData) (img_width imgData) (img_height imgData) = Some contours"
    and "\<forall>c \<in> set contours. \<not> qualifies (real (img_width imgData)) (real (img_height imgData)) c"
  shows "\<exists>r. processDocument imgData = Inr r \<and>
           corners r = fallbackQuad (real (img_width imgData)) (real (img_height imgData)) \<and>
           confidence r = 30 \<and>
           warning r = Some ''Low confidence detection. Document edges may not be accurate.''"
proof -
  have "findBestQuadrilateral contours (real (img_width imgData)) (real (img_height imgData)) =
      Inr (Some (fallbackQuad (real (img_width imgData)) (real (img_height imgData))), 30)"
    using findBestQuadrilateral_fallback [OF assms(4)] assms(1,2)
    by (simp add: orderCorners_fallbackQuad)
  with processDocument_returns [OF assms(1,2)] assms(3) show ?thesis by auto
qed

section \<open>The fallback quadrilateral\<close>

text \<open>
  C1, as the claim states it, fails twice.  The edge mask of a black raster is
  not zero: all magnitudes are 0, so both thresholds are 0 and every pixel
  passes the test \<^verbatim>\<open>edges[i] >= highThreshold\<close>; the mask of the black raster of
  3 by 3 pixels is 255 everywhere.  And the fallback rectangle of a raster of
  400 by 300 pixels is inset by \<open>0.05 * min 400 300 = 15\<close> on all four sides: its
  corners are \<open>(15,15), (385,15), (385,285), (15,285)\<close>, not
  \<open>(20,15), (380,15), (380,285), (20,285)\<close>.
\<close>

theorem uniform_black_mask_and_fallback_corners:
  "detectEdges \<lparr>img_width = 3, img_height = 3, img_data = replicate 36 0\<rparr> = replicate 9 255 \<and>
   detectEdges \<lparr>img_width = 3, img_height = 3, img_data = replicate 36 0\<rparr> \<noteq> replicate 9 0 \<and>
   findBestQuadrilateral [] 400 300 =
     Inr (Some [\<lparr>px = 15, py = 15\<rparr>, \<lparr>px = 385, py = 15\<rparr>, \<lparr>px = 385, py = 285\<rparr>,
                \<lparr>px = 15, py = 285\<rparr>], 30) \<and>
   findBestQuadrilateral [] 400 300 \<noteq>
     Inr (Some [\<lparr>px = 20, py = 15\<rparr>, \<lparr>px = 380, py = 15\<rparr>, \<lparr>px = 380, py = 285\<rparr>,
                \<lparr>px = 20, py = 285\<rparr>], 30)"
proof -
  have "findBestQuadrilateral [] 400 300 = Inr (Some (fallbackQuad 400 300), 30)"
    using findBestQuadrilateral_fallback [of "[]" 400 300]
    by (simp add: orderCorners_fallbackQuad)
  then show ?thesis
    by (simp add: detectEdges_black3 fallbackQuad_400_300 replicate9)
qed

text \<open>
  C1, amended: when no contour is found, the quadrilateral selector produces the
  rectangle inset by \<open>0.05 * min width height\<close> on every side with confidence
  exactly 30, and the result of the pipeline has these corners, confidence 30
  and the warning.  For 400 by 300 pixels the corners are
  \<open>(15,15), (385,15), (385,285), (15,285)\<close>.
\<close>

theorem no_contours_fallback:
  assumes "0 < img_width imgData" and "0 < img_height imgData"
  shows "findBestQuadrilateral [] (real (img_width imgData)) (real (img_height imgData)) =
           Inr (Some (fallbackQuad (real (img_width imgData)) (real (img_height imgData))), 30) \<and>
         (findContours (detectEdges imgData) (img_width imgData) (img_height imgData) = Some [] \<longrightarrow>
          (\<exists>r. processDocument imgData = Inr r \<and>
             corners r = fallbackQuad (real (img_width imgData)) (real (img_height imgData)) \<and>
             confidence r = 30 \<and>
             warning r = Some ''Low confidence detection. Document edges may not be accurate.''))"
proof
  show "findBestQuadrilateral [] (real (img_width imgData)) (real (img_height imgData)) =
           Inr (Some (fallbackQuad (real (img_width imgData)) (real (img_height imgData))), 30)"
    using findBestQuadrilateral_fallback [of "[]"] assms
    by (simp add: orderCorners_fallbackQuad)
next
  show "findContours (detectEdges imgData) (img_width imgData) (img_height imgData) = Some [] \<longrightarrow>
          (\<exists>r. processDocument imgData = Inr r \<and>
             corners r = fallbackQuad (real (img_width imgData)) (real (img_height imgData)) \<and>
             confidence r = 30 \<and>
             warning r = Some ''Low confidence detection. Document edges may not be accurate.'')"
    using pipeline_fallback [OF assms, of "[]"] by simp
qed

text \<open>
  The selector at 400 by 300 pixels, and the pipeline on the black raster of
  3 by 3 pixels, whose only component has 9 pixels and is dropped.
\<close>

theorem no_contours_fallback_witness:
  "findBestQuadrilateral [] 400 300 =
     Inr (Some [\<lparr>px = 15, py = 15\<rparr>, \<lparr>px = 385, py = 15\<rparr>, \<lparr>px = 385, py = 285\<rparr>,
                \<lparr>px = 15, py = 285\<rparr>], 30) \<and>
   (\<exists>r. processDocument \<lparr>img_width = 3, img_height = 3, img_data = replicate 36 0\<rparr> = Inr r \<and>
      corners r = [\<lparr>px = 0.15, py = 0.15\<rparr>, \<lparr>px = 2.85, py = 0.15\<rparr>, \<lparr>px = 2.85, py = 2.85\<rparr>,
                   \<lparr>px = 0.15, py = 2.85\<rparr>] \<and>
      confidence r = 30 \<and>
      warning r = Some ''Low confidence detection. Document edges may not be accurate.'')"
proof -
  let ?big = "\<lparr>img_width = 400, img_height = 300, img_data = []\<rparr>"
  let ?small = "\<lparr>img_width = 3, img_height = 3, img_data = replicate 36 0\<rparr>"
  have b: "0 < img_width ?big" "0 < img_height ?big" by simp_all
  have s: "0 < img_width ?small" "0 < img_height ?small" by simp_all
  have c: "findContours (detectEdges ?small) (img_width ?small) (img_height ?small) = Some []"
    by (simp add: detectEdges_black3 findContours_black3)
  from no_contours_fallback [OF b] have 1: "findBestQuadrilateral [] 400 300 =
     Inr (Some [\<lparr>px = 15, py = 15\<rparr>, \<lparr>px = 385, py = 15\<rparr>, \<lparr>px = 385, py = 285\<rparr>,
                \<lparr>px = 15, py = 285\<rparr>], 30)"
    by (simp add: fallbackQuad_400_300)
  from no_contours_fallback [OF s] c have 2: "\<exists>r. processDocument ?small = Inr r \<and>
      corners r = fallbackQuad 3 3 \<and> confidence r = 30 \<and>
      warning r = Some ''Low confidence detection. Document edges may not be accurate.''"
    by simp
  from 1 2 show ?thesis unfolding fallbackQuad_3_3 by (rule conjI)
qed

section \<open>Confidence and warning\<close>

text \<open>
  C2: for every input raster with at least one pixel the pipeline returns a
  result whose confidence lies between 0 and 95, and whose warning is present
  exactly when the confidence is below 50.  (A raster of width or height 0 has
  no result: the canvas refuses it.)
\<close>

theorem confidence_range:
  assumes "0 < img_width imgData" and "0 < img_height imgData"
  shows "\<exists>r. processDocument imgData = Inr r \<and> 0 \<le> confidence r \<and> confidence r \<le> 95 \<and>
     (warning r \<noteq> None) = (confidence r < 50)"
proof -
  from processDocument_returns [OF assms] obtain contours cs conf r
    where q: "findBestQuadrilateral contours (real (img_width imgData)) (real (img_height imgData))
                = Inr (Some cs, conf)"
      and r: "processDocument imgData = Inr r" "confidence r = conf"
        "warning r = (if conf < 50
                  then Some ''Low confidence detection. Document edges may not be accurate.''
                  else None)"
    by blast
  from findBestQuadrilateral_returns [of contours "real (img_width imgData)" "real (img_height imgData)"] q
  have "0 \<le> conf" "conf \<le> 95" by simp_all
  with r show ?thesis by simp
qed

text \<open>The black raster of 3 by 3 pixels.\<close>

theorem confidence_range_witness:
  "\<exists>r. processDocument \<lparr>img_width = 3, img_height = 3, img_data = replicate 36 0\<rparr> = Inr r \<and>
     0 \<le> confidence r \<and> confidence r \<le> 95 \<and> (warning r \<noteq> None) = (confidence r < 50)"
  using confidence_range [of "\<lparr>img_width = 3, img_height = 3, img_data = replicate 36 0\<rparr>"]
  by simp

section \<open>Failure and fallback\<close>

text \<open>
  C3: take a raster as the canvas delivers it, a buffer of \<open>4 * width * height\<close>
  entries.  The pipeline fails only when the raster has no pixels (width or
  height 0), and then with the \<^verbatim>\<open>IndexSizeError\<close> of the canvas.  On every
  raster with at least one pixel it returns a result with four corners: no
  exception of the file's own code, no loop without end, no output canvas
  without pixels.  When no contour yields a qualifying quadrilateral the result
  is the rectangle inset by \<open>0.05 * min width height\<close>, with confidence 30 and
  the warning.
\<close>

theorem processDocument_fails_only_without_pixels:
  assumes "length (img_data imgData) = img_width imgData * img_height imgData * 4"
  shows "(img_width imgData = 0 \<or> img_height imgData = 0 \<longrightarrow>
      processDocument imgData = Inl IndexSizeError) \<and>
   (0 < img_width imgData \<and> 0 < img_height imgData \<longrightarrow>
      (\<exists>r. processDocument imgData = Inr r \<and> length (corners r) = 4 \<and>
         ((\<exists>contours.
             findContours (detectEdges imgData) (img_width imgData) (img_height imgData) = Some contours \<and>
             (\<forall>c \<in> set contours. \<not> qualifies (real (img_width imgData)) (real (img_height imgData)) c))
          \<longrightarrow> corners r = fallbackQuad (real (img_width imgData)) (real (img_height imgData)) \<and>
              confidence r = 30 \<and>
              warning r = Some ''Low confidence detection. Document edges may not be accurate.'')))"
proof (intro conjI impI)
  assume "img_width imgData = 0 \<or> img_height imgData = 0"
  then show "processDocument imgData = Inl IndexSizeError" by (rule processDocument_zero_area)
next
  assume p: "0 < img_width imgData \<and> 0 < img_height imgData"
  then have w: "0 < img_width imgData" and h: "0 < img_height imgData" by simp_all
  from processDocument_returns [OF w h] obtain contours cs conf r
    where q: "findBestQuadrilateral contours (real (img_width imgData)) (real (img_height imgData))
                = Inr (Some cs, conf)"
      and r: "processDocument imgData = Inr r" "corners r = cs"
    by blast
  from findBestQuadrilateral_returns [of contours "real (img_width imgData)" "real (img_height imgData)"] q
  have "length cs = 4" by simp
  with r pipeline_fallback [OF w h]
  show "\<exists>r. processDocument imgData = Inr r \<and> length (corners r) = 4 \<and>
         ((\<exists>contours.
             findContours (detectEdges imgData) (img_width imgData) (img_height imgData) = Some contours \<and>
             (\<forall>c \<in> set contours. \<not> qualifies (real (img_width imgData)) (real (img_height imgData)) c))
          \<longrightarrow> corners r = fallbackQuad (real (img_width imgData)) (real (img_height imgData)) \<and>
              confidence r = 30 \<and>
              warning r = Some ''Low confidence detection. Document edges may not be accurate.'')"
    by auto
qed

text \<open>
  A raster of 0 by 0 pixels is refused; the black raster of 3 by 3 pixels has no
  contour at all and gets the fallback.
\<close>

theorem processDocument_fails_only_without_pixels_witness:
  "processDocument \<lparr>img_width = 0, img_height = 0, img_data = []\<rparr> = Inl IndexSizeError \<and>
   (\<exists>r. processDocument \<lparr>img_width = 3, img_height = 3, img_data = replicate 36 0\<rparr> = Inr r \<and>
      length (corners r) = 4 \<and>
      corners r = [\<lparr>px = 0.15, py = 0.15\<rparr>, \<lparr>px = 2.85, py = 0.15\<rparr>, \<lparr>px = 2.85, py = 2.85\<rparr>,
                   \<lparr>px = 0.15, py = 2.85\<rparr>] \<and>
      confidence r = 30 \<and>
      warning r = Some ''Low confidence detection. Document edges may not be accurate.'')"
proof -
  let ?none = "\<lparr>img_width = 0, img_height = 0, img_data = [] :: uint8 list\<rparr>"
  let ?small = "\<lparr>img_width = 3, img_height = 3, img_data = replicate 36 (0 :: uint8)\<rparr>"
  have c: "findContours (detectEdges ?small) (img_width ?small) (img_height ?small) = Some [] \<and>
           (\<forall>c \<in> set []. \<not> qualifies (real (img_width ?small)) (real (img_height ?small)) c)"
    by (simp add: detectEdges_black3 findContours_black3)
  have n: "length (img_data ?none) = img_width ?none * img_height ?none * 4" by simp
  have s: "length (img_data ?small) = img_width ?small * img_height ?small * 4" by simp
  from processDocument_fails_only_without_pixels [OF n]
  have 1: "processDocument ?none = Inl IndexSizeError" by simp
  from processDocument_fails_only_without_pixels [OF s] c
  have 2: "\<exists>r. processDocument ?small = Inr r \<and> length (corners r) = 4 \<and>
      corners r = fallbackQuad 3 3 \<and> confidence r = 30 \<and>
      warning r = Some ''Low confidence detection. Document edges may not be accurate.''"
    by auto
  from 1 2 show ?thesis unfolding fallbackQuad_3_3 by (rule conjI)
qed

section \<open>Loops that write one entry of a buffer at a time\<close>

lemma fold_write_other:
  "i \<notin> g ` set ks \<Longrightarrow>
   fold (\<lambda>k s. case v k of None \<Rightarrow> s | Some u \<Rightarrow> s[g k := u]) ks s ! i = s ! i"
  by (induction ks arbitrary: s) (auto split: option.splits)

lemma fold_write_length:
  "length (fold (\<lambda>k s. case v k of None \<Rightarrow> s | Some u \<Rightarrow> s[g k := u]) ks s) = length s"
  by (induction ks arbitrary: s) (auto split: option.splits)

lemma fold_write_at:
  assumes "\<exists>k \<in> set ks. g k = i" and "\<forall>k \<in> set ks. g k = i \<longrightarrow> v k = c" and "i < length s"
  shows "fold (\<lambda>k s. case v k of None \<Rightarrow> s | Some u \<Rightarrow> s[g k := u]) ks s ! i =
           (case c of None \<Rightarrow> s ! i | Some u \<Rightarrow> u)"
  using assms
proof (induction ks arbitrary: s)
  case Nil
  then show ?case by simp
next
  case (Cons a ks)
  let ?s' = "case v a of None \<Rightarrow> s | Some u \<Rightarrow> s[g a := u]"
  have len: "i < length ?s'" using Cons.prems(3) by (simp split: option.splits)
  have s': "(case c of None \<Rightarrow> ?s' ! i | Some u \<Rightarrow> u) = (case c of None \<Rightarrow> s ! i | Some u \<Rightarrow> u)"
    using Cons.prems(2) by (cases "g a = i") (auto split: option.splits)
  show ?case
  proof (cases "\<exists>k \<in> set ks. g k = i")
    case True
    from Cons.IH [OF True _ len] Cons.prems(2) s' show ?thesis by simp
  next
    case False
    then have "i \<notin> g ` set ks" by auto
    then have "fold (\<lambda>k s. case v k of None \<Rightarrow> s | Some u \<Rightarrow> s[g k := u]) ks ?s' ! i = ?s' ! i"
      by (rule fold_write_other)
    moreover from False Cons.prems(1) have "g a = i" by simp
    moreover from this Cons.prems(2) have "v a = c" by simp
    ultimately show ?thesis using Cons.prems(3) by (auto split: option.splits)
  qed
qed

section \<open>The interior pixels\<close>

lemma fold_concat_map:
  "fold f (concat (map (\<lambda>y. map (\<lambda>x. h x y) xs) ys)) s = fold (\<lambda>y. fold (\<lambda>x. f (h x y)) xs) ys s"
  by (induction ys arbitrary: s) (simp_all add: fold_map comp_def)

lemma forInterior_flat:
  "forInterior width height body s = fold (\<lambda>(x, y). body x y) (interiorPixels width height) s"
  by (simp add: forInterior_def interiorPixels_def fold_concat_map)

lemma mem_interiorPixels:
  "(a, b) \<in> set (interiorPixels width height) \<longleftrightarrow>
     1 \<le> a \<and> a < width - 1 \<and> 1 \<le> b \<and> b < height - 1"
  by (auto simp: interiorPixels_def image_iff)

lemma idx_inj:
  assumes "x < w" "x' < w" "y * w + x = y' * w + (x'::nat)"
  shows "x = x' \<and> y = y'"
proof -
  have "(y * w + x) mod w = x" "(y' * w + x') mod w = x'" using assms(1,2) by simp_all
  with assms(3) have x: "x = x'" by simp
  have "(y * w + x) div w = y" "(y' * w + x') div w = y'" using assms(1,2) by simp_all
  with assms(3) have "y = y'" by simp
  with x show ?thesis by simp
qed

text \<open>A loop over the interior that stores a value at every pixel it visits.\<close>

lemma forInterior_store_nth:
  assumes "x < width" and "y * width + x < length s"
  shows "forInterior width height (\<lambda>x y s. s[y * width + x := f x y]) s ! (y * width + x) =
           (if 1 \<le> x \<and> x < width - 1 \<and> 1 \<le> y \<and> y < height - 1 then f x y
            else s ! (y * width + x))"
proof -
  let ?ks = "interiorPixels width height"
  let ?g = "\<lambda>(x, y). y * width + x" and ?v = "\<lambda>(x, y). Some (f x y)"
  have flat: "forInterior width height (\<lambda>x y s. s[y * width + x := f x y]) s =
      fold (\<lambda>k s. case ?v k of None \<Rightarrow> s | Some u \<Rightarrow> s[?g k := u]) ?ks s"
    unfolding forInterior_flat by (rule arg_cong [where f = "\<lambda>h. fold h ?ks s"]) auto
  note mem = mem_interiorPixels [of _ _ width height]
  have same: "\<And>a b. (a, b) \<in> set ?ks \<Longrightarrow> b * width + a = y * width + x \<Longrightarrow> a = x \<and> b = y"
  proof -
    fix a b assume "(a, b) \<in> set ?ks" and e: "b * width + a = y * width + x"
    then have "a < width" unfolding mem by linarith
    from idx_inj [OF this assms(1) e] show "a = x \<and> b = y" .
  qed
  show ?thesis
  proof (cases "1 \<le> x \<and> x < width - 1 \<and> 1 \<le> y \<and> y < height - 1")
    case True
    then have "(x, y) \<in> set ?ks" using mem by blast
    then have 1: "\<exists>k \<in> set ?ks. ?g k = y * width + x" by force
    have 2: "\<forall>k \<in> set ?ks. ?g k = y * width + x \<longrightarrow> ?v k = Some (f x y)"
      using same by auto
    from fold_write_at [of ?ks ?g "y * width + x" ?v "Some (f x y)" s, OF 1 2 assms(2)]
    show ?thesis unfolding if_P [OF True] flat by simp
  next
    case False
    have "y * width + x \<notin> ?g ` set ?ks"
    proof
      assume "y * width + x \<in> ?g ` set ?ks"
      then obtain a b where ab: "(a, b) \<in> set ?ks" "b * width + a = y * width + x" by force
      from same [OF this] ab(1) mem False show False by blast
    qed
    then show ?thesis unfolding if_not_P [OF False] flat by (rule fold_write_other)
  qed
qed

section \<open>The blur\<close>

lemma nbIdx_nat:
  "0 \<le> int x + kx \<Longrightarrow> 0 \<le> int y + ky \<Longrightarrow>
   nbIdx width x y kx ky = nat (int y + ky) * width + nat (int x + kx)"
  by (simp add: nbIdx_def nat_add_distrib nat_mult_distrib)

lemma getU8_pixelOf:
  "x < width \<Longrightarrow> y < height \<Longrightarrow> length d = width * height \<Longrightarrow>
   getU8 d (y * width + x) = Some (pixelOf d width x y)"
  using idx_in_frame [of x width y height] by (simp add: getU8_def pixelOf_def)

lemma blurSum_interior:
  assumes "1 \<le> x" "x + 1 < width" "1 \<le> y" "y + 1 < height" "length d = width * height"
  shows "blurSum d width x y =
     Some (pixelOf d width (x - 1) (y - 1) + 2 * pixelOf d width x (y - 1)
             + pixelOf d width (x + 1) (y - 1)
           + 2 * pixelOf d width (x - 1) y + 4 * pixelOf d width x y
             + 2 * pixelOf d width (x + 1) y
           + pixelOf d width (x - 1) (y + 1) + 2 * pixelOf d width x (y + 1)
             + pixelOf d width (x + 1) (y + 1))"
proof -
  have n: "nbIdx width x y (- 1) (- 1) = (y - 1) * width + (x - 1)"
    "nbIdx width x y 0 (- 1) = (y - 1) * width + x"
    "nbIdx width x y 1 (- 1) = (y - 1) * width + (x + 1)"
    "nbIdx width x y (- 1) 0 = y * width + (x - 1)"
    "nbIdx width x y 0 0 = y * width + x"
    "nbIdx width x y 1 0 = y * width + (x + 1)"
    "nbIdx width x y (- 1) 1 = (y + 1) * width + (x - 1)"
    "nbIdx width x y 0 1 = (y + 1) * width + x"
    "nbIdx width x y 1 1 = (y + 1) * width + (x + 1)"
    using assms(1,3) by (simp_all add: nbIdx_nat nat_diff_distrib nat_add_distrib)
  have g: "\<And>i j. i \<le> x + 1 \<Longrightarrow> j \<le> y + 1 \<Longrightarrow>
      getU8 d (j * width + i) = Some (pixelOf d width i j)"
    using assms(2,4,5) by (intro getU8_pixelOf [where height = height]) simp_all
  have r: "getU8 d (nbIdx width x y (- 1) (- 1)) = Some (pixelOf d width (x - 1) (y - 1))"
    "getU8 d (nbIdx width x y 0 (- 1)) = Some (pixelOf d width x (y - 1))"
    "getU8 d (nbIdx width x y 1 (- 1)) = Some (pixelOf d width (x + 1) (y - 1))"
    "getU8 d (nbIdx width x y (- 1) 0) = Some (pixelOf d width (x - 1) y)"
    "getU8 d (nbIdx width x y 0 0) = Some (pixelOf d width x y)"
    "getU8 d (nbIdx width x y 1 0) = Some (pixelOf d width (x + 1) y)"
    "getU8 d (nbIdx width x y (- 1) 1) = Some (pixelOf d width (x - 1) (y + 1))"
    "getU8 d (nbIdx width x y 0 1) = Some (pixelOf d width x (y + 1))"
    "getU8 d (nbIdx width x y 1 1) = Some (pixelOf d width (x + 1) (y + 1))"
    unfolding n by (rule g; simp)+
  show ?thesis
    unfolding blurSum_def fold_simps r
    by (simp add: kernel'_def)
qed

text \<open>
  C5, as the claim states it, fails: the border of the blurred buffer is not the
  border of the input.  The result buffer is new and all zero, and the loops
  write the interior only.  In a white buffer of 3 by 3 pixels only the centre
  is white afterwards.
\<close>

theorem gaussianBlur_border_not_passed_through:
  "gaussianBlur (replicate 9 255) 3 3 = [0, 0, 0, 0, 255, 0, 0, 0, 0] \<and>
   gaussianBlur (replicate 9 255) 3 3 ! 0 \<noteq> replicate 9 255 ! 0"
  by code_simp

text \<open>
  C5, amended: in the blurred buffer of a buffer of \<open>width * height\<close> entries,
  every border pixel (row or column 0 or the last one) is 0, and every interior
  pixel is the sum of its 3 by 3 neighbourhood weighted by
  \<open>[[1,2,1],[2,4,2],[1,2,1]]\<close>, divided by 16 and stored as a clamped byte
  (rounded to the nearest integer, a tie to the even one).
\<close>

theorem gaussianBlur_pixels:
  assumes "length d = width * height" and "x < width" and "y < height"
  shows "gaussianBlur d width height ! (y * width + x) =
     (if 1 \<le> x \<and> x < width - 1 \<and> 1 \<le> y \<and> y < height - 1 then
        toUint8Clamp
          ((pixelOf d width (x - 1) (y - 1) + 2 * pixelOf d width x (y - 1)
              + pixelOf d width (x + 1) (y - 1)
            + 2 * pixelOf d width (x - 1) y + 4 * pixelOf d width x y
              + 2 * pixelOf d width (x + 1) y
            + pixelOf d width (x - 1) (y + 1) + 2 * pixelOf d width x (y + 1)
              + pixelOf d width (x + 1) (y + 1)) / 16)
      else 0)"
proof -
  have i: "y * width + x < width * height" using assms(2,3) by (rule idx_in_frame)
  then have l: "y * width + x < length (replicate (length d) (0 :: uint8))"
    using assms(1) by simp
  show ?thesis
  proof (cases "1 \<le> x \<and> x < width - 1 \<and> 1 \<le> y \<and> y < height - 1")
    case True
    then have "1 \<le> x" "x + 1 < width" "1 \<le> y" "y + 1 < height" by linarith+
    from blurSum_interior [OF this assms(1)] True show ?thesis
      unfolding gaussianBlur_def forInterior_store_nth [OF assms(2) l]
      by (simp add: storeU8_def)
  next
    case False
    then show ?thesis
      unfolding gaussianBlur_def forInterior_store_nth [OF assms(2) l] if_not_P [OF False]
      using i assms(1) by simp
  qed
qed

text \<open>The centre and a corner of a buffer of 3 by 3 pixels.\<close>

theorem gaussianBlur_pixels_witness:
  "gaussianBlur [10, 20, 30, 40, 50, 60, 70, 80, 90] 3 3 ! 4 = 50 \<and>
   gaussianBlur [10, 20, 30, 40, 50, 60, 70, 80, 90] 3 3 ! 0 = 0"
proof -
  let ?d = "[10, 20, 30, 40, 50, 60, 70, 80, 90] :: uint8 list"
  have l: "length ?d = 3 * 3" by simp
  from gaussianBlur_pixels [OF l, of 1 1] have "gaussianBlur ?d 3 3 ! 4 = 50"
    by (simp add: pixelOf_def toUint8Clamp_def)
  moreover from gaussianBlur_pixels [OF l, of 0 0] have "gaussianBlur ?d 3 3 ! 0 = 0"
    by simp
  ultimately show ?thesis by (rule conjI)
qed

section \<open>Loops that rewrite a buffer in place\<close>

text \<open>
  A loop whose step \<open>k\<close> changes at most the entry \<open>g k\<close> of the buffer, and which
  visits the entries in increasing order.  When entry \<open>g k\<close> is visited, the
  entries before it have their final values and the others their first ones.
\<close>

lemma fold_local_other:
  assumes "\<And>k s j. j \<noteq> g k \<Longrightarrow> step k s ! j = s ! j"
    and "\<forall>k \<in> set ks. g k \<noteq> j"
  shows "fold step ks s ! j = s ! j"
  using assms(2) by (induction ks arbitrary: s) (simp_all add: assms(1))

lemma fold_local_length:
  assumes "\<And>k s. length (step k s) = length s"
  shows "length (fold step ks s) = length s"
  by (induction ks arbitrary: s) (simp_all add: assms)

lemma seen_eqI:
  assumes "length t = length s" "length s0 = length s"
    and "\<And>j. j < n \<Longrightarrow> j < length s \<Longrightarrow> t ! j = s ! j"
    and "\<And>j. n \<le> j \<Longrightarrow> j < length s \<Longrightarrow> s0 ! j = s ! j"
  shows "take n t @ drop n s0 = s"
proof (rule nth_equalityI)
  show "length (take n t @ drop n s0) = length s" using assms(1,2) by simp
next
  fix j assume "j < length (take n t @ drop n s0)"
  then have j: "j < length s" using assms(1,2) by simp
  show "(take n t @ drop n s0) ! j = s ! j"
  proof (cases "j < n")
    case True
    with j assms(1) have "(take n t @ drop n s0) ! j = t ! j" by (simp add: nth_append)
    with assms(3) [OF True j] show ?thesis by simp
  next
    case False
    with j assms(1,2) have "(take n t @ drop n s0) ! j = s0 ! j"
      by (simp add: nth_append min_def)
    with assms(4) [of j] False j show ?thesis by simp
  qed
qed

lemma take_eqI:
  assumes "length t = length t'" and "\<And>j. j < n \<Longrightarrow> j < length t \<Longrightarrow> t ! j = t' ! j"
  shows "take n t = take n t'"
  by (rule nth_equalityI) (simp_all add: assms)

lemma fold_local_visit:
  assumes other: "\<And>k s j. j \<noteq> g k \<Longrightarrow> step k s ! j = s ! j"
    and len: "\<And>k s. length (step k s) = length s"
    and "sorted_wrt (<) (map g ks)" and "k \<in> set ks"
  shows "fold step ks s0 ! g k = step k (take (g k) (fold step ks s0) @ drop (g k) s0) ! g k"
  using assms(3,4)
proof (induction ks rule: rev_induct)
  case Nil
  then show ?case by simp
next
  case (snoc a ks)
  let ?s' = "fold step ks s0" and ?t = "fold step (ks @ [a]) s0"
  have t: "?t = step a ?s'" by simp
  have ls': "length ?s' = length s0" by (rule fold_local_length) (rule len)
  have lt: "length ?t = length ?s'" unfolding t by (rule len)
  from snoc.prems(1) have sorted: "sorted_wrt (<) (map g ks)" and lt_a: "\<forall>k' \<in> set ks. g k' < g a"
    by (auto simp: sorted_wrt_append)
  show ?case
  proof (cases "k \<in> set ks")
    case True
    with lt_a have ka: "g k < g a" by blast
    have "take (g k) ?t = take (g k) ?s'"
    proof (rule take_eqI [OF lt])
      fix j assume "j < g k"
      with ka have "j \<noteq> g a" by simp
      then show "?t ! j = ?s' ! j" unfolding t by (rule other)
    qed
    moreover have "?t ! g k = ?s' ! g k" unfolding t using ka by (intro other) simp
    ultimately show ?thesis using snoc.IH [OF sorted True] by simp
  next
    case False
    with snoc.prems(2) have k: "k = a" by simp
    have "take (g a) ?t @ drop (g a) s0 = ?s'"
    proof (rule seen_eqI [OF lt ls' [symmetric]])
      fix j assume "j < g a"
      then have "j \<noteq> g a" by simp
      then show "?t ! j = ?s' ! j" unfolding t by (rule other)
    next
      fix j assume "g a \<le> j"
      with lt_a have "\<forall>k' \<in> set ks. g k' \<noteq> j" by auto
      with other show "s0 ! j = ?s' ! j" by (rule fold_local_other [symmetric])
    qed
    then show ?thesis unfolding k by (simp del: fold_append add: t)
  qed
qed

section \<open>The order of the interior pixels\<close>

lemma sorted_row: "sorted_wrt (<) (map (\<lambda>x. y * width + x) [a..<b])"
  by (simp add: sorted_wrt_map)

lemma sorted_rows:
  "b \<le> width \<Longrightarrow>
   sorted_wrt (<) (concat (map (\<lambda>y. map (\<lambda>x. y * width + x) [a..<b]) [c..<d]))"
proof (induction d)
  case 0
  then show ?case by simp
next
  case (Suc d)
  let ?row = "\<lambda>y. map (\<lambda>x. y * width + x) [a..<b]"
  show ?case
  proof (cases "c \<le> d")
    case False
    then show ?thesis by simp
  next
    case True
    then have split: "concat (map ?row [c..<Suc d]) = concat (map ?row [c..<d]) @ ?row d"
      by simp
    have cross: "\<forall>u \<in> set (concat (map ?row [c..<d])). \<forall>v \<in> set (?row d). u < v"
    proof (intro ballI)
      fix u v assume "u \<in> set (concat (map ?row [c..<d]))" and "v \<in> set (?row d)"
      then obtain y where y: "y < d" and u: "u < b + y * width" and v: "d * width \<le> v"
        by auto
      have "u < Suc y * width" using u Suc.prems by simp
      also have "\<dots> \<le> d * width" using y by (intro mult_le_mono1) simp
      also note v
      finally show "u < v" .
    qed
    show ?thesis
      unfolding split sorted_wrt_append
      using Suc.IH [OF Suc.prems] sorted_row [of d width a b] cross by blast
  qed
qed

lemma sorted_interiorPixels:
  "sorted_wrt (<) (map (\<lambda>(x, y). y * width + x) (interiorPixels width height))"
proof -
  have "map (\<lambda>(x, y). y * width + x) (interiorPixels width height) =
        concat (map (\<lambda>y. map (\<lambda>x. y * width + x) [1..<width - 1]) [1..<height - 1])"
    by (simp add: interiorPixels_def map_concat comp_def)
  then show ?thesis by (simp add: sorted_rows)
qed

section \<open>Thresholds and hysteresis\<close>

lemma maxMagnitude_nonneg: "0 \<le> maxMagnitude edges"
  unfolding maxMagnitude_def
  by (rule fold_invariant [where Q = "\<lambda>_. True"]) simp_all

lemma applyThresholds_nth:
  assumes "i < length edges"
  shows "applyThresholds edges ! i =
     (if edges ! i \<ge> maxMagnitude edges * 0.15 then 255
      else if edges ! i \<ge> maxMagnitude edges * 0.15 * 0.4 then 128 else 0)"
proof -
  let ?v = "\<lambda>i. if edges ! i \<ge> maxMagnitude edges * 0.15 then Some (255 :: uint8)
                 else if edges ! i \<ge> maxMagnitude edges * 0.15 * 0.4 then Some 128 else None"
  have "applyThresholds edges =
      fold (\<lambda>k s. case ?v k of None \<Rightarrow> s | Some u \<Rightarrow> s[id k := u]) [0..<length edges]
        (replicate (length edges) 0)"
    unfolding applyThresholds_def Let_def
    by (rule arg_cong [where f = "\<lambda>h. fold h [0..<length edges] (replicate (length edges) 0)"])
       (auto simp: fun_eq_iff)
  moreover have "fold (\<lambda>k s. case ?v k of None \<Rightarrow> s | Some u \<Rightarrow> s[id k := u]) [0..<length edges]
        (replicate (length edges) 0) ! i =
      (case ?v i of None \<Rightarrow> replicate (length edges) 0 ! i | Some u \<Rightarrow> u)"
    by (rule fold_write_at) (use assms in auto)
  ultimately show ?thesis using assms by simp
qed

lemma applyThresholds_values:
  "i < length edges \<Longrightarrow> applyThresholds edges ! i \<in> {0, 128, 255}"
  by (simp add: applyThresholds_nth)

lemma zero_not_weak:
  assumes "i < length edges" "edges ! i = 0"
  shows "applyThresholds edges ! i \<noteq> 128"
  using maxMagnitude_nonneg [of edges] assms by (simp add: applyThresholds_nth)

lemma trackEdge_other: "j \<noteq> y * width + x \<Longrightarrow> trackEdge width x y s ! j = s ! j"
  by (simp add: trackEdge_def Let_def)

lemma doubleThreshold_flat:
  "doubleThreshold edges width height =
     fold (\<lambda>(x, y). trackEdge width x y) (interiorPixels width height) (applyThresholds edges)"
  by (simp add: doubleThreshold_def forInterior_flat)

lemma doubleThreshold_visit:
  assumes "(x, y) \<in> set (interiorPixels width height)"
  shows "doubleThreshold edges width height ! (y * width + x) =
     trackEdge width x y
       (take (y * width + x) (doubleThreshold edges width height) @
        drop (y * width + x) (applyThresholds edges)) ! (y * width + x)"
  unfolding doubleThreshold_flat
  using fold_local_visit [where step = "\<lambda>(x, y). trackEdge width x y" and g = "\<lambda>(x, y). y * width + x"
      and ks = "interiorPixels width height" and k = "(x, y)" and ?s0.0 = "applyThresholds edges",
      OF _ _ sorted_interiorPixels assms]
  by (simp add: trackEdge_other length_trackEdge split_beta)

lemma seen_nth:
  "length t = length s \<Longrightarrow> j < length s \<Longrightarrow>
   (take n t @ drop n s) ! j = (if j < n then t ! j else s ! j)"
  by (simp add: nth_append min_def)

lemma doubleThreshold_keeps:
  assumes "j < length edges" "applyThresholds edges ! j \<noteq> 128"
  shows "doubleThreshold edges width height ! j = applyThresholds edges ! j"
proof (cases "\<exists>k \<in> set (interiorPixels width height). (\<lambda>(x, y). y * width + x) k = j")
  case True
  then obtain x y where xy: "(x, y) \<in> set (interiorPixels width height)" and j: "j = y * width + x"
    by auto
  let ?seen = "take j (doubleThreshold edges width height) @ drop j (applyThresholds edges)"
  have "?seen ! j = applyThresholds edges ! j"
    using assms(1) by (simp add: seen_nth length_doubleThreshold length_applyThresholds)
  with assms(2) have "trackEdge width x y ?seen ! j = applyThresholds edges ! j"
    by (simp add: trackEdge_def Let_def j)
  with doubleThreshold_visit [OF xy, of edges] show ?thesis unfolding j by simp
next
  case False
  then have "\<forall>k \<in> set (interiorPixels width height). (\<lambda>(x, y). y * width + x) k \<noteq> j" by blast
  then show ?thesis
    unfolding doubleThreshold_flat
    by (intro fold_local_other [where g = "\<lambda>(x, y). y * width + x"])
       (auto simp: trackEdge_other)
qed

lemma hasStrongNeighbor_mono:
  assumes "length t = length s" and "\<And>j. j < length s \<Longrightarrow> s ! j = 255 \<Longrightarrow> t ! j = 255"
    and "hasStrongNeighbor s width x y"
  shows "hasStrongNeighbor t width x y"
  using assms(3) unfolding hasStrongNeighbor_def list_ex_iff
  by (metis assms(1,2))

lemma doubleThreshold_border:
  assumes "x < width" and "\<not> (1 \<le> x \<and> x < width - 1 \<and> 1 \<le> y \<and> y < height - 1)"
  shows "doubleThreshold edges width height ! (y * width + x) = applyThresholds edges ! (y * width + x)"
proof -
  have "\<forall>k \<in> set (interiorPixels width height). (\<lambda>(x, y). y * width + x) k \<noteq> y * width + x"
  proof
    fix k assume k: "k \<in> set (interiorPixels width height)"
    obtain a b where ab: "k = (a, b)" by (cases k)
    with k have m: "1 \<le> a \<and> a < width - 1 \<and> 1 \<le> b \<and> b < height - 1"
      by (simp add: mem_interiorPixels)
    then have "a < width" by linarith
    from idx_inj [OF this assms(1)] m assms(2) have "b * width + a \<noteq> y * width + x" by blast
    then show "(\<lambda>(x, y). y * width + x) k \<noteq> y * width + x" by (simp add: ab)
  qed
  then show ?thesis
    unfolding doubleThreshold_flat
    by (intro fold_local_other [where g = "\<lambda>(x, y). y * width + x"])
       (auto simp: trackEdge_other)
qed

text \<open>
  C4, as the claim states it, fails in two ways.  The pass works on the buffer it
  writes, in raster order: in a row of magnitudes \<open>10, 1, 1\<close> (strong, weak,
  weak) the second weak pixel has no strong neighbour after thresholding, and
  yet it is promoted, because its left neighbour was promoted just before.
  And the pass visits interior pixels only: a weak pixel on the border keeps the
  value 128, so the mask is not binary.
\<close>

theorem hysteresis_chain_and_border:
  "applyThresholds [0, 0, 0, 0, 0,  0, 10, 1, 1, 0,  0, 0, 0, 0, 0] =
     [0, 0, 0, 0, 0,  0, 255, 128, 128, 0,  0, 0, 0, 0, 0] \<and>
   \<not> hasStrongNeighbor (applyThresholds [0, 0, 0, 0, 0,  0, 10, 1, 1, 0,  0, 0, 0, 0, 0]) 5 3 1 \<and>
   doubleThreshold [0, 0, 0, 0, 0,  0, 10, 1, 1, 0,  0, 0, 0, 0, 0] 5 3 =
     [0, 0, 0, 0, 0,  0, 255, 255, 255, 0,  0, 0, 0, 0, 0] \<and>
   doubleThreshold [1, 0, 0,  0, 10, 0,  0, 0, 0] 3 3 = [128, 0, 0,  0, 255, 0,  0, 0, 0]"
  by code_simp

text \<open>
  C4, amended.  Let \<open>thr\<close> be the buffer after thresholding and \<open>fin\<close> the mask.
  A weak pixel (128 in \<open>thr\<close>) in the interior ends at 255 when one of its 8
  neighbours holds 255 at the moment the pixel is visited, and at 0 otherwise;
  at that moment the pixels before it in raster order hold their final values
  and the others their thresholded ones.  So every weak interior pixel with a
  strong neighbour is promoted, and so is one whose neighbour was promoted
  earlier in the pass.  Every other pixel keeps its thresholded value, which is
  0, 128 or 255: a weak pixel on the border stays 128.  A pixel of magnitude 0
  is never weak, so the mask is binary when the border magnitudes are 0, as the
  ridge thinner leaves them.
\<close>

theorem doubleThreshold_pass:
  assumes "length edges = width * height" and "x < width" and "y < height"
  shows "let thr = applyThresholds edges;
             fin = doubleThreshold edges width height;
             idx = y * width + x
         in thr ! idx \<in> {0, 128, 255} \<and>
            (if 1 \<le> x \<and> x < width - 1 \<and> 1 \<le> y \<and> y < height - 1 \<and> thr ! idx = 128
             then fin ! idx =
                    (if hasStrongNeighbor (take idx fin @ drop idx thr) width x y then 255 else 0) \<and>
                  (hasStrongNeighbor thr width x y \<longrightarrow> fin ! idx = 255)
             else fin ! idx = thr ! idx) \<and>
            (edges ! idx = 0 \<longrightarrow> thr ! idx \<noteq> 128)"
proof -
  define thr where "thr = applyThresholds edges"
  define fin where "fin = doubleThreshold edges width height"
  define idx where "idx = y * width + x"
  define seen where "seen = take idx fin @ drop idx thr"
  have i: "idx < length edges" unfolding idx_def assms(1) using assms(2,3) by (rule idx_in_frame)
  have lt: "length thr = length edges" by (simp add: thr_def length_applyThresholds)
  have lf: "length fin = length thr" by (simp add: fin_def thr_def length_doubleThreshold length_applyThresholds)
  have ls: "length seen = length thr" by (simp add: seen_def lf)
  have a: "thr ! idx \<in> {0, 128, 255}" unfolding thr_def using i by (rule applyThresholds_values)
  have d: "edges ! idx = 0 \<longrightarrow> thr ! idx \<noteq> 128" unfolding thr_def using i zero_not_weak by blast
  have b: "if 1 \<le> x \<and> x < width - 1 \<and> 1 \<le> y \<and> y < height - 1 \<and> thr ! idx = 128
           then fin ! idx = (if hasStrongNeighbor seen width x y then 255 else 0) \<and>
                (hasStrongNeighbor thr width x y \<longrightarrow> fin ! idx = 255)
           else fin ! idx = thr ! idx"
  proof (cases "1 \<le> x \<and> x < width - 1 \<and> 1 \<le> y \<and> y < height - 1 \<and> thr ! idx = 128")
    case True
    then have mem: "(x, y) \<in> set (interiorPixels width height)" by (simp add: mem_interiorPixels)
    have s: "seen ! idx = 128" unfolding seen_def using i lt lf True by (simp add: seen_nth)
    have v: "fin ! idx = trackEdge width x y seen ! idx"
      unfolding fin_def seen_def idx_def thr_def by (rule doubleThreshold_visit [OF mem])
    have 1: "fin ! idx = (if hasStrongNeighbor seen width x y then 255 else 0)"
      unfolding v using s i lt ls by (simp add: trackEdge_def Let_def idx_def [symmetric])
    have keep: "\<And>j. j < length thr \<Longrightarrow> thr ! j = 255 \<Longrightarrow> seen ! j = 255"
    proof -
      fix j assume j: "j < length thr" and t: "thr ! j = 255"
      then have "fin ! j = thr ! j"
        unfolding fin_def thr_def using lt by (intro doubleThreshold_keeps) (simp_all add: thr_def)
      with j t lf show "seen ! j = 255" unfolding seen_def by (simp add: seen_nth)
    qed
    have "hasStrongNeighbor thr width x y \<longrightarrow> hasStrongNeighbor seen width x y"
      using hasStrongNeighbor_mono [OF ls keep] by blast
    with 1 have 2: "hasStrongNeighbor thr width x y \<longrightarrow> fin ! idx = 255" by simp
    from 1 2 show ?thesis unfolding if_P [OF True] by (rule conjI)
  next
    case False
    have "fin ! idx = thr ! idx"
    proof (cases "thr ! idx = 128")
      case True
      with False have "\<not> (1 \<le> x \<and> x < width - 1 \<and> 1 \<le> y \<and> y < height - 1)" by blast
      from doubleThreshold_border [OF assms(2) this] show ?thesis
        unfolding fin_def thr_def idx_def .
    next
      case F: False
      then show ?thesis unfolding fin_def thr_def using i by (intro doubleThreshold_keeps)
    qed
    then show ?thesis unfolding if_not_P [OF False] .
  qed
  from a b d show ?thesis
    unfolding Let_def thr_def [symmetric] fin_def [symmetric] idx_def [symmetric] seen_def [symmetric]
    by blast
qed

text \<open>The row \<open>10, 1, 1\<close> again: the pixel \<open>(3, 1)\<close> of a mask of 5 by 3 pixels.\<close>

theorem doubleThreshold_pass_witness:
  "applyThresholds [0, 0, 0, 0, 0,  0, 10, 1, 1, 0,  0, 0, 0, 0, 0] ! 8 = 128 \<and>
   doubleThreshold [0, 0, 0, 0, 0,  0, 10, 1, 1, 0,  0, 0, 0, 0, 0] 5 3 ! 8 =
     (if hasStrongNeighbor
           (take 8 (doubleThreshold [0, 0, 0, 0, 0,  0, 10, 1, 1, 0,  0, 0, 0, 0, 0] 5 3) @
            drop 8 (applyThresholds [0, 0, 0, 0, 0,  0, 10, 1, 1, 0,  0, 0, 0, 0, 0])) 5 3 1
      then 255 else 0)"
proof -
  let ?e = "[0, 0, 0, 0, 0,  0, 10, 1, 1, 0,  0, 0, 0, 0, 0] :: real list"
  have l: "length ?e = 5 * 3" by simp
  have w: "applyThresholds ?e ! 8 = 128" by code_simp
  from doubleThreshold_pass [OF l, of 3 1] w show ?thesis
    by (simp add: Let_def)
qed

section \<open>The resampling loops\<close>

lemma fold_skip: "fold (\<lambda>c s. s) xs s = s"
  by (induction xs) simp_all

lemma warpPixel_warpValue:
  "warpPixel sourceData H outputWidth x y out =
     fold (\<lambda>c s. case warpValue sourceData H x y c of None \<Rightarrow> s
                  | Some u \<Rightarrow> s[(y * outputWidth + x) * 4 + c := u]) [0..<4] out"
proof (cases "\<exists>u. warpValue sourceData H x y 0 = Some u")
  case True
  then show ?thesis
    by (auto simp: warpPixel_def warpValue_def Let_def split: option.splits if_splits
             intro!: arg_cong [where f = "\<lambda>h. fold h [0..<4] out"])
next
  case False
  then have "\<And>c. warpValue sourceData H x y c = None"
    by (auto simp: warpValue_def Let_def split: option.splits if_splits)
  moreover from False have "warpPixel sourceData H outputWidth x y out = out"
    by (auto simp: warpPixel_def warpValue_def Let_def split: option.splits if_splits)
  ultimately show ?thesis by (simp add: fold_skip)
qed

lemma warpAll_flat:
  "warpAll sourceData H outputWidth outputHeight =
     fold (\<lambda>k s. case (\<lambda>(x, y, c). warpValue sourceData H x y c) k of None \<Rightarrow> s
                  | Some u \<Rightarrow> s[(\<lambda>(x, y, c). (y * outputWidth + x) * 4 + c) k := u])
          (outputPixels outputWidth outputHeight)
          (replicate (outputWidth * outputHeight * 4) 0)"
proof -
  have row: "\<And>y s. fold (\<lambda>x. warpPixel sourceData H outputWidth x y) xs s =
      fold (\<lambda>k s. case (\<lambda>(x, y, c). warpValue sourceData H x y c) k of None \<Rightarrow> s
                  | Some u \<Rightarrow> s[(\<lambda>(x, y, c). (y * outputWidth + x) * 4 + c) k := u])
          (concat (map (\<lambda>x. map (\<lambda>c. (x, y, c)) [0..<4]) xs)) s" for xs
    by (induction xs) (simp_all add: warpPixel_warpValue fold_map comp_def cong: option.case_cong)
  have rows: "\<And>s. fold (\<lambda>y. fold (\<lambda>x. warpPixel sourceData H outputWidth x y) xs) ys s =
      fold (\<lambda>k s. case (\<lambda>(x, y, c). warpValue sourceData H x y c) k of None \<Rightarrow> s
                  | Some u \<Rightarrow> s[(\<lambda>(x, y, c). (y * outputWidth + x) * 4 + c) k := u])
          (concat (map (\<lambda>y. concat (map (\<lambda>x. map (\<lambda>c. (x, y, c)) [0..<4]) xs)) ys)) s" for xs ys
    by (induction ys) (simp_all add: row)
  show ?thesis unfolding warpAll_def outputPixels_def by (rule rows)
qed

lemma mem_outputPixels:
  "(a, b, c) \<in> set (outputPixels outputWidth outputHeight) \<longleftrightarrow>
     a < outputWidth \<and> b < outputHeight \<and> c < 4"
  by (auto simp: outputPixels_def image_iff)

lemma length_warpAll:
  "length (warpAll sourceData H outputWidth outputHeight) = outputWidth * outputHeight * 4"
  unfolding warpAll_flat by (simp add: fold_write_length)

lemma warpAll_nth:
  assumes "x < outputWidth" "y < outputHeight" "c < 4"
  shows "warpAll sourceData H outputWidth outputHeight ! ((y * outputWidth + x) * 4 + c) =
     (case warpValue sourceData H x y c of None \<Rightarrow> 0 | Some u \<Rightarrow> u)"
proof -
  let ?g = "\<lambda>(x, y, c). (y * outputWidth + x) * 4 + c"
  let ?v = "\<lambda>(x, y, c). warpValue sourceData H x y c"
  let ?ks = "outputPixels outputWidth outputHeight"
  let ?i = "(y * outputWidth + x) * 4 + c"
  have "y * outputWidth + x < outputWidth * outputHeight" using assms(1,2) by (rule idx_in_frame)
  from idx_in_frame [OF assms(3) this] have "?i < 4 * (outputWidth * outputHeight)" .
  then have len: "?i < length (replicate (outputWidth * outputHeight * 4) (0 :: uint8))"
    by (simp add: mult.commute)
  have 1: "\<exists>k \<in> set ?ks. ?g k = ?i"
    using assms mem_outputPixels [of x y c outputWidth outputHeight] by force
  have 2: "\<forall>k \<in> set ?ks. ?g k = ?i \<longrightarrow> ?v k = warpValue sourceData H x y c"
  proof (intro ballI impI)
    fix k assume k: "k \<in> set ?ks" and e: "?g k = ?i"
    obtain a b c' where abc: "k = (a, b, c')" by (cases k)
    with k have m: "a < outputWidth" "b < outputHeight" "c' < 4" by (simp_all add: mem_outputPixels)
    from e abc have e': "(b * outputWidth + a) * 4 + c' = (y * outputWidth + x) * 4 + c" by simp
    from idx_inj [OF m(3) assms(3) e'] have c: "c' = c" and "b * outputWidth + a = y * outputWidth + x"
      by simp_all
    from idx_inj [OF m(1) assms(1) this(2)] c show "?v k = warpValue sourceData H x y c"
      by (simp add: abc)
  qed
  from fold_write_at [of ?ks ?g ?i ?v "warpValue sourceData H x y c", OF 1 2 len] len
  show ?thesis unfolding warpAll_flat by (simp split: option.splits)
qed

lemma srcIdx_in_range:
  assumes "length (img_data sourceData) = img_width sourceData * img_height sourceData * 4"
    and "0 \<le> x'" "x' < int (img_width sourceData)" "0 \<le> y'" "y' < int (img_height sourceData)"
    and "c < 4"
  shows "srcIdx sourceData x' y' c < length (img_data sourceData)"
proof -
  let ?w = "img_width sourceData" and ?h = "img_height sourceData"
  let ?p = "nat (y' * int ?w + x')"
  have p: "?p < ?w * ?h" using assms(2-5) by (rule int_idx_in_frame)
  have "0 \<le> y' * int ?w + x'" using assms(2,4) by simp
  then have "srcIdx sourceData x' y' c = ?p * 4 + c"
    by (simp add: srcIdx_def nat_add_distrib nat_mult_distrib)
  moreover from idx_in_frame [OF assms(6) p] have "?p * 4 + c < ?w * ?h * 4"
    by (simp add: mult.commute)
  ultimately show ?thesis using assms(1) by simp
qed

lemma bilinear_in_source:
  assumes "length (img_data sourceData) = img_width sourceData * img_height sourceData * 4"
    and "inSource sourceData x0 y0" and "c < 4"
  shows "srcIdx sourceData x0 y0 c < length (img_data sourceData)"
    and "srcIdx sourceData (x0 + 1) y0 c < length (img_data sourceData)"
    and "srcIdx sourceData x0 (y0 + 1) c < length (img_data sourceData)"
    and "srcIdx sourceData (x0 + 1) (y0 + 1) c < length (img_data sourceData)"
    and "bilinear sourceData x0 y0 xWeight yWeight c =
      Some (channelOf sourceData x0 y0 c * (1 - xWeight) * (1 - yWeight) +
            channelOf sourceData (x0 + 1) y0 c * xWeight * (1 - yWeight) +
            channelOf sourceData x0 (y0 + 1) c * (1 - xWeight) * yWeight +
            channelOf sourceData (x0 + 1) (y0 + 1) c * xWeight * yWeight)"
proof -
  from assms(2) have b: "0 \<le> x0" "x0 + 1 < int (img_width sourceData)" "0 \<le> y0"
    "y0 + 1 < int (img_height sourceData)" by (simp_all add: inSource_def)
  show 1: "srcIdx sourceData x0 y0 c < length (img_data sourceData)"
    using b by (intro srcIdx_in_range assms(1,3)) simp_all
  show 2: "srcIdx sourceData (x0 + 1) y0 c < length (img_data sourceData)"
    using b by (intro srcIdx_in_range assms(1,3)) simp_all
  show 3: "srcIdx sourceData x0 (y0 + 1) c < length (img_data sourceData)"
    using b by (intro srcIdx_in_range assms(1,3)) simp_all
  show 4: "srcIdx sourceData (x0 + 1) (y0 + 1) c < length (img_data sourceData)"
    using b by (intro srcIdx_in_range assms(1,3)) simp_all
  from 1 2 3 4 show "bilinear sourceData x0 y0 xWeight yWeight c =
      Some (channelOf sourceData x0 y0 c * (1 - xWeight) * (1 - yWeight) +
            channelOf sourceData (x0 + 1) y0 c * xWeight * (1 - yWeight) +
            channelOf sourceData x0 (y0 + 1) c * (1 - xWeight) * yWeight +
            channelOf sourceData (x0 + 1) (y0 + 1) c * xWeight * yWeight)"
    by (simp add: bilinear_def getU8_def channelOf_def)
qed

text \<open>
  C9: every pixel of the output lies inside the output buffer.  When \<open>w\<close> is 0,
  or the 2 by 2 neighbourhood of \<open>(floor srcX, floor srcY)\<close> is not inside the
  source, the pixel keeps the 0 of the new buffer and the source is not read.
  Otherwise the four reads of every channel are inside the source buffer (a
  buffer of \<open>4 * width * height\<close> entries) and the channel is their bilinear
  interpolation, stored as a clamped byte.  The loops have no way to stop
  early: with four corners \<^verbatim>\<open>perspectiveTransform\<close> returns this buffer, unless
  the source has no pixels, which the canvas refuses with an \<^verbatim>\<open>IndexSizeError\<close>.
\<close>

theorem warpAll_pixel:
  assumes "length (img_data sourceData) = img_width sourceData * img_height sourceData * 4"
    and "x < outputWidth" and "y < outputHeight" and "c < 4"
  shows
    "let w = H ! 6 * real x + H ! 7 * real y + H ! 8;
         srcX = (H ! 0 * real x + H ! 1 * real y + H ! 2) / w;
         srcY = (H ! 3 * real x + H ! 4 * real y + H ! 5) / w;
         x0 = \<lfloor>srcX\<rfloor>; y0 = \<lfloor>srcY\<rfloor>;
         xWeight = srcX - real_of_int x0; yWeight = srcY - real_of_int y0;
         idx = (y * outputWidth + x) * 4 + c;
         out = warpAll sourceData H outputWidth outputHeight
     in idx < length out \<and>
        (if w \<noteq> 0 \<and> inSource sourceData x0 y0 then
           srcIdx sourceData x0 y0 c < length (img_data sourceData) \<and>
           srcIdx sourceData (x0 + 1) y0 c < length (img_data sourceData) \<and>
           srcIdx sourceData x0 (y0 + 1) c < length (img_data sourceData) \<and>
           srcIdx sourceData (x0 + 1) (y0 + 1) c < length (img_data sourceData) \<and>
           out ! idx = toUint8Clamp
             (channelOf sourceData x0 y0 c * (1 - xWeight) * (1 - yWeight) +
              channelOf sourceData (x0 + 1) y0 c * xWeight * (1 - yWeight) +
              channelOf sourceData x0 (y0 + 1) c * (1 - xWeight) * yWeight +
              channelOf sourceData (x0 + 1) (y0 + 1) c * xWeight * yWeight)
         else out ! idx = 0) \<and>
        (\<forall>cs. length cs = 4 \<longrightarrow>
           (if img_width sourceData = 0 \<or> img_height sourceData = 0
            then perspectiveTransform sourceData cs outputWidth outputHeight = Inl IndexSizeError
            else \<exists>H'. perspectiveTransform sourceData cs outputWidth outputHeight =
                   Inr \<lparr>img_width = outputWidth, img_height = outputHeight,
                        img_data = warpAll sourceData H' outputWidth outputHeight\<rparr>))"
proof -
  define w where "w = H ! 6 * real x + H ! 7 * real y + H ! 8"
  define srcX where "srcX = (H ! 0 * real x + H ! 1 * real y + H ! 2) / w"
  define srcY where "srcY = (H ! 3 * real x + H ! 4 * real y + H ! 5) / w"
  define idx where "idx = (y * outputWidth + x) * 4 + c"
  define out where "out = warpAll sourceData H outputWidth outputHeight"
  have "y * outputWidth + x < outputWidth * outputHeight" using assms(2,3) by (rule idx_in_frame)
  from idx_in_frame [OF assms(4) this] have 1: "idx < length out"
    by (simp add: idx_def out_def length_warpAll mult.commute)
  have n: "out ! idx = (case warpValue sourceData H x y c of None \<Rightarrow> 0 | Some u \<Rightarrow> u)"
    unfolding out_def idx_def by (rule warpAll_nth [OF assms(2-4)])
  have 2: "if w \<noteq> 0 \<and> inSource sourceData \<lfloor>srcX\<rfloor> \<lfloor>srcY\<rfloor> then
           srcIdx sourceData \<lfloor>srcX\<rfloor> \<lfloor>srcY\<rfloor> c < length (img_data sourceData) \<and>
           srcIdx sourceData (\<lfloor>srcX\<rfloor> + 1) \<lfloor>srcY\<rfloor> c < length (img_data sourceData) \<and>
           srcIdx sourceData \<lfloor>srcX\<rfloor> (\<lfloor>srcY\<rfloor> + 1) c < length (img_data sourceData) \<and>
           srcIdx sourceData (\<lfloor>srcX\<rfloor> + 1) (\<lfloor>srcY\<rfloor> + 1) c < length (img_data sourceData) \<and>
           out ! idx = toUint8Clamp
             (channelOf sourceData \<lfloor>srcX\<rfloor> \<lfloor>srcY\<rfloor> c
                * (1 - (srcX - real_of_int \<lfloor>srcX\<rfloor>)) * (1 - (srcY - real_of_int \<lfloor>srcY\<rfloor>)) +
              channelOf sourceData (\<lfloor>srcX\<rfloor> + 1) \<lfloor>srcY\<rfloor> c
                * (srcX - real_of_int \<lfloor>srcX\<rfloor>) * (1 - (srcY - real_of_int \<lfloor>srcY\<rfloor>)) +
              channelOf sourceData \<lfloor>srcX\<rfloor> (\<lfloor>srcY\<rfloor> + 1) c
                * (1 - (srcX - real_of_int \<lfloor>srcX\<rfloor>)) * (srcY - real_of_int \<lfloor>srcY\<rfloor>) +
              channelOf sourceData (\<lfloor>srcX\<rfloor> + 1) (\<lfloor>srcY\<rfloor> + 1) c
                * (srcX - real_of_int \<lfloor>srcX\<rfloor>) * (srcY - real_of_int \<lfloor>srcY\<rfloor>))
         else out ! idx = 0"
  proof (cases "w \<noteq> 0 \<and> inSource sourceData \<lfloor>srcX\<rfloor> \<lfloor>srcY\<rfloor>")
    case True
    note b = bilinear_in_source [OF assms(1) conjunct2 [OF True] assms(4)]
    have "warpValue sourceData H x y c =
        Some (storeU8 (bilinear sourceData \<lfloor>srcX\<rfloor> \<lfloor>srcY\<rfloor>
                (srcX - real_of_int \<lfloor>srcX\<rfloor>) (srcY - real_of_int \<lfloor>srcY\<rfloor>) c))"
      using True by (simp add: warpValue_def jsDiv_def w_def srcX_def srcY_def Let_def)
    then have "out ! idx = toUint8Clamp
             (channelOf sourceData \<lfloor>srcX\<rfloor> \<lfloor>srcY\<rfloor> c
                * (1 - (srcX - real_of_int \<lfloor>srcX\<rfloor>)) * (1 - (srcY - real_of_int \<lfloor>srcY\<rfloor>)) +
              channelOf sourceData (\<lfloor>srcX\<rfloor> + 1) \<lfloor>srcY\<rfloor> c
                * (srcX - real_of_int \<lfloor>srcX\<rfloor>) * (1 - (srcY - real_of_int \<lfloor>srcY\<rfloor>)) +
              channelOf sourceData \<lfloor>srcX\<rfloor> (\<lfloor>srcY\<rfloor> + 1) c
                * (1 - (srcX - real_of_int \<lfloor>srcX\<rfloor>)) * (srcY - real_of_int \<lfloor>srcY\<rfloor>) +
              channelOf sourceData (\<lfloor>srcX\<rfloor> + 1) (\<lfloor>srcY\<rfloor> + 1) c
                * (srcX - real_of_int \<lfloor>srcX\<rfloor>) * (srcY - real_of_int \<lfloor>srcY\<rfloor>))"
      unfolding n b(5) by (simp add: storeU8_def)
    with b(1-4) show ?thesis unfolding if_P [OF True] by blast
  next
    case False
    then have "warpValue sourceData H x y c = None"
      by (auto simp: warpValue_def jsDiv_def w_def srcX_def srcY_def Let_def)
    then show ?thesis unfolding if_not_P [OF False] n by simp
  qed
  have o: "outputWidth \<noteq> 0" "outputHeight \<noteq> 0" using assms(2,3) by simp_all
  have 3: "\<forall>cs. length cs = 4 \<longrightarrow>
           (if img_width sourceData = 0 \<or> img_height sourceData = 0
            then perspectiveTransform sourceData cs outputWidth outputHeight = Inl IndexSizeError
            else \<exists>H'. perspectiveTransform sourceData cs outputWidth outputHeight =
                   Inr \<lparr>img_width = outputWidth, img_height = outputHeight,
                        img_data = warpAll sourceData H' outputWidth outputHeight\<rparr>)"
    using o by (auto simp: perspectiveTransform_def computeHomography_def Let_def)
  from 1 2 3 show ?thesis
    unfolding Let_def w_def [symmetric] srcX_def [symmetric] srcY_def [symmetric]
      idx_def [symmetric] out_def [symmetric]
    by blast
qed

text \<open>
  A source of 2 by 2 pixels and an output of 2 by 2 pixels.  With the identity
  matrix the pixel \<open>(0, 0)\<close> is interpolated and the pixel \<open>(1, 1)\<close>, whose
  neighbourhood leaves the source, stays 0; with a matrix whose last row is 0
  (so that \<open>w = 0\<close>) the pixel \<open>(0, 0)\<close> stays 0.
\<close>

theorem warpAll_pixel_witness:
  "warpAll \<lparr>img_width = 2, img_height = 2,
            img_data = [10, 20, 30, 40,  50, 60, 70, 80,  90, 100, 110, 120,  130, 140, 150, 160]\<rparr>
     [1, 0, 0,  0, 1, 0,  0, 0, 1] 2 2 ! 0 = 10 \<and>
   warpAll \<lparr>img_width = 2, img_height = 2,
            img_data = [10, 20, 30, 40,  50, 60, 70, 80,  90, 100, 110, 120,  130, 140, 150, 160]\<rparr>
     [1, 0, 0,  0, 1, 0,  0, 0, 1] 2 2 ! 12 = 0 \<and>
   warpAll \<lparr>img_width = 2, img_height = 2,
            img_data = [10, 20, 30, 40,  50, 60, 70, 80,  90, 100, 110, 120,  130, 140, 150, 160]\<rparr>
     [1, 0, 0,  0, 1, 0,  0, 0, 0] 2 2 ! 0 = 0"
proof -
  let ?src = "\<lparr>img_width = 2, img_height = 2,
            img_data = [10, 20, 30, 40,  50, 60, 70, 80,  90, 100, 110, 120,  130, 140, 150, 160]\<rparr>"
  have l: "length (img_data ?src) = img_width ?src * img_height ?src * 4" by simp
  from warpAll_pixel [OF l, of 0 2 0 2 0 "[1, 0, 0,  0, 1, 0,  0, 0, 1]"]
  have a: "warpAll ?src [1, 0, 0,  0, 1, 0,  0, 0, 1] 2 2 ! 0 = 10"
    by (simp add: Let_def inSource_def channelOf_def srcIdx_def toUint8Clamp_def)
  from warpAll_pixel [OF l, of 1 2 1 2 0 "[1, 0, 0,  0, 1, 0,  0, 0, 1]"]
  have b: "warpAll ?src [1, 0, 0,  0, 1, 0,  0, 0, 1] 2 2 ! 12 = 0"
    by (simp add: Let_def inSource_def)
  from warpAll_pixel [OF l, of 0 2 0 2 0 "[1, 0, 0,  0, 1, 0,  0, 0, 0]"]
  have c: "warpAll ?src [1, 0, 0,  0, 1, 0,  0, 0, 0] 2 2 ! 0 = 0"
    by (simp add: Let_def)
  from a b c show ?thesis by blast
qed

section \<open>The steps of the elimination\<close>



















section \<open>Back substitution\<close>




section \<open>Triangular systems\<close>




section \<open>The solver solves injective systems\<close>


section \<open>The normal equations\<close>








section \<open>The correspondences of a rectangle\<close>





lemma cross3_swap12: "cross3 b a c = - cross3 a b c"
  by (simp add: cross3_def algebra_simps)

lemma cross3_swap23: "cross3 a c b = - cross3 a b c"
  by (simp add: cross3_def algebra_simps)






section \<open>Resampling through the identity\<close>












end
